theory Spec2Isabelle
  imports Main "HOL-Library.Multiset"
begin

section \<open>Nodes, pointers and the tree object\<close>

text \<open>
  The trees of \<^verbatim>\<open>trees.hh\<close> are graphs of heap nodes: a node owns its two children
  through \<^verbatim>\<open>shared_ptr\<close> and refers back to its parent through a \<^verbatim>\<open>weak_ptr\<close>.
  A pointer is modelled as an optional address (\<open>None\<close> is \<^verbatim>\<open>nullptr\<close>), and the nodes
  live in a store that maps addresses to node records. The store belongs to the tree
  object, so every operation takes the object and returns the updated one.

  Nodes that are no longer referenced are not removed from the store: a node that C++
  destroys is a node that no pointer reachable from the root names any more. In the
  code no \<^verbatim>\<open>weak_ptr\<close> outlives its pointee, so \<^verbatim>\<open>m_parent.lock()\<close> is a read of the
  parent field.
\<close>

type_synonym addr = nat
type_synonym ptr = "addr option"

record 'a node =
  m_key :: 'a
  m_left :: ptr
  m_right :: ptr
  m_parent :: ptr

text \<open>
  \<open>EmptyTreeError\<close> and \<open>ValueError\<close> are the two exception classes of the source.
  \<open>NullDeref\<close> stands for the undefined behaviour of dereferencing a null pointer
  and \<open>EmptyQueue\<close> for that of \<^verbatim>\<open>front()\<close> on an empty queue.
  \<open>Dangling\<close> is the value of reading an address the store does not hold; a
  \<^verbatim>\<open>shared_ptr\<close> cannot dangle, and on well-formed trees the value never arises.
\<close>

datatype error = EmptyTreeError | ValueError | NullDeref | EmptyQueue | Dangling

text \<open>An entry of the log of rotation calls made by \<open>rebalance\<close>.\<close>

datatype rotation = LeftRotate ptr | RightRotate ptr

text \<open>
  The object: \<open>m_root\<close>, and the three scratch members \<open>find\<close> uses, as in the classes
  \<^verbatim>\<open>BinaryTree\<close>, \<^verbatim>\<open>BinarySearchTree\<close> and \<^verbatim>\<open>AVLTree\<close> (the derived classes add no
  further data). \<open>nodes\<close> is the store and \<open>next_addr\<close> the allocator's next free address.
  \<open>rot_log\<close> is a ghost field: it is no member of the class, and records the rotation
  calls of \<open>rebalance\<close> in order. \<open>find_target_key\<close> is \<open>None\<close> until \<open>find\<close> first assigns it.
\<close>

record 'a tree =
  nodes :: "addr \<Rightarrow> 'a node option"
  m_root :: ptr
  find_target_key :: "'a option"
  find_count :: int
  is_found :: bool
  next_addr :: addr
  rot_log :: "rotation list"

definition bindE :: "error + 'a \<Rightarrow> ('a \<Rightarrow> error + 'b) \<Rightarrow> error + 'b" where
  "bindE m f = (case m of Inl e \<Rightarrow> Inl e | Inr v \<Rightarrow> f v)"

text \<open>\<open>deref s p\<close> is the node \<open>*p\<close>.\<close>

definition deref :: "'a tree \<Rightarrow> ptr \<Rightarrow> error + 'a node" where
  "deref s p =
     (case p of
        None \<Rightarrow> Inl NullDeref
      | Some a \<Rightarrow> (case nodes s a of None \<Rightarrow> Inl Dangling | Some n \<Rightarrow> Inr n))"

text \<open>The reads \<open>p->m_key\<close>, \<open>p->m_left\<close>, \<open>p->m_right\<close> and \<open>p->m_parent.lock()\<close>.\<close>

definition key_of :: "'a tree \<Rightarrow> ptr \<Rightarrow> error + 'a" where
  "key_of s p = bindE (deref s p) (\<lambda>n. Inr (m_key n))"

definition left_of :: "'a tree \<Rightarrow> ptr \<Rightarrow> error + ptr" where
  "left_of s p = bindE (deref s p) (\<lambda>n. Inr (m_left n))"

definition right_of :: "'a tree \<Rightarrow> ptr \<Rightarrow> error + ptr" where
  "right_of s p = bindE (deref s p) (\<lambda>n. Inr (m_right n))"

definition parent_of :: "'a tree \<Rightarrow> ptr \<Rightarrow> error + ptr" where
  "parent_of s p = bindE (deref s p) (\<lambda>n. Inr (m_parent n))"

text \<open>The writes \<open>p->m_left = v\<close>, \<open>p->m_right = v\<close> and \<open>p->m_parent = v\<close>.\<close>

definition store_node :: "ptr \<Rightarrow> ('a node \<Rightarrow> 'a node) \<Rightarrow> 'a tree \<Rightarrow> error + 'a tree" where
  "store_node p f s =
     (case p of
        None \<Rightarrow> Inl NullDeref
      | Some a \<Rightarrow>
          (case nodes s a of
             None \<Rightarrow> Inl Dangling
           | Some n \<Rightarrow> Inr (s\<lparr>nodes := (nodes s)(a \<mapsto> f n)\<rparr>)))"

definition set_left :: "ptr \<Rightarrow> ptr \<Rightarrow> 'a tree \<Rightarrow> error + 'a tree" where
  "set_left p v s = store_node p (\<lambda>n. n\<lparr>m_left := v\<rparr>) s"

definition set_right :: "ptr \<Rightarrow> ptr \<Rightarrow> 'a tree \<Rightarrow> error + 'a tree" where
  "set_right p v s = store_node p (\<lambda>n. n\<lparr>m_right := v\<rparr>) s"

definition set_parent :: "ptr \<Rightarrow> ptr \<Rightarrow> 'a tree \<Rightarrow> error + 'a tree" where
  "set_parent p v s = store_node p (\<lambda>n. n\<lparr>m_parent := v\<rparr>) s"

text \<open>\<open>make_shared<Node>(x)\<close>: a fresh node with key \<open>x\<close> and three null links.\<close>

definition make_shared :: "'a \<Rightarrow> 'a tree \<Rightarrow> ptr \<times> 'a tree" where
  "make_shared x s =
     (Some (next_addr s),
      s\<lparr>nodes := (nodes s)(next_addr s \<mapsto>
             \<lparr>m_key = x, m_left = None, m_right = None, m_parent = None\<rparr>),
        next_addr := Suc (next_addr s)\<rparr>)"

text \<open>The default constructor \<open>BinaryTree()\<close>: no node, a null root.\<close>

definition empty_tree :: "'a tree" where
  "empty_tree =
     \<lparr>nodes = (\<lambda>a. None), m_root = None, find_target_key = None, find_count = 0,
      is_found = False, next_addr = 0, rot_log = []\<rparr>"

section \<open>Rotations\<close>

text \<open>\<open>AVLTree::left_rotate\<close> and \<open>AVLTree::right_rotate\<close>, statement by statement.\<close>

definition left_rotate :: "ptr \<Rightarrow> 'a tree \<Rightarrow> error + 'a tree" where
  "left_rotate x s =
     bindE (right_of s x) (\<lambda>y.
     if y = None then Inr s
     else
       bindE (left_of s y) (\<lambda>yl.
       bindE (set_right x yl s) (\<lambda>s1.
       bindE (left_of s1 y) (\<lambda>yl1.
       bindE (if yl1 \<noteq> None then set_parent yl1 x s1 else Inr s1) (\<lambda>s2.
       bindE (parent_of s2 x) (\<lambda>xp.
       bindE (set_parent y xp s2) (\<lambda>s3.
       bindE (parent_of s3 x) (\<lambda>xp3.
       bindE (if xp3 = None then Inr (s3\<lparr>m_root := y\<rparr>)
              else bindE (left_of s3 xp3) (\<lambda>pl.
                   if x = pl then set_left xp3 y s3 else set_right xp3 y s3)) (\<lambda>s4.
       bindE (set_left y x s4) (\<lambda>s5.
       set_parent x y s5))))))))))"

definition right_rotate :: "ptr \<Rightarrow> 'a tree \<Rightarrow> error + 'a tree" where
  "right_rotate x s =
     bindE (left_of s x) (\<lambda>y.
     if y = None then Inr s
     else
       bindE (right_of s y) (\<lambda>yr.
       bindE (set_left x yr s) (\<lambda>s1.
       bindE (right_of s1 y) (\<lambda>yr1.
       bindE (if yr1 \<noteq> None then set_parent yr1 x s1 else Inr s1) (\<lambda>s2.
       bindE (parent_of s2 x) (\<lambda>xp.
       bindE (set_parent y xp s2) (\<lambda>s3.
       bindE (parent_of s3 x) (\<lambda>xp3.
       bindE (if xp3 = None then Inr (s3\<lparr>m_root := y\<rparr>)
              else bindE (left_of s3 xp3) (\<lambda>pl.
                   if x = pl then set_left xp3 y s3 else set_right xp3 y s3)) (\<lambda>s4.
       bindE (set_right y x s4) (\<lambda>s5.
       set_parent x y s5))))))))))"

section \<open>Loops and recursion over the store\<close>

text \<open>
  A loop or a recursion that follows pointers need not terminate on an arbitrary store,
  so those functions return an option: \<open>None\<close> is a run that never returns, \<open>Some (Inl e)\<close>
  a run that fails with \<open>e\<close>, \<open>Some (Inr v)\<close> a run that returns \<open>v\<close>. \<open>bindO\<close> sequences
  two such runs.
\<close>

abbreviation bindO :: "(error + 'a) option \<Rightarrow> ('a \<Rightarrow> (error + 'b) option) \<Rightarrow> (error + 'b) option" where
  "bindO m f \<equiv> Option.bind m (\<lambda>r. case r of Inl e \<Rightarrow> Some (Inl e) | Inr v \<Rightarrow> f v)"

section \<open>BinaryTree: construction from a breadth-first layout\<close>

text \<open>
  The loop of \<open>BinaryTree(const vector<optional<T>>&)\<close> over the elements after the
  first; \<open>i\<close> is the loop index, \<open>node\<close> the local of that name.
\<close>

fun bfs_fill :: "'a option list \<Rightarrow> nat \<Rightarrow> ptr list \<Rightarrow> ptr \<Rightarrow> 'a tree \<Rightarrow> error + 'a tree" where
  "bfs_fill [] i child_queue node s = Inr s"
| "bfs_fill (v # vs) i child_queue node s =
     (if i mod 2 = 1 then
        (case child_queue of
           [] \<Rightarrow> Inl EmptyQueue
         | nd # q \<Rightarrow>
             bindE (if nd \<noteq> None then
                      (case v of
                         None \<Rightarrow> set_left nd None s
                       | Some k \<Rightarrow>
                           (case make_shared k s of (new, s1) \<Rightarrow>
                              bindE (set_left nd new s1) (\<lambda>s2.
                              bindE (left_of s2 nd) (\<lambda>l. set_parent l nd s2))))
                    else Inr s) (\<lambda>s'.
             bindE (left_of s' nd) (\<lambda>l. bfs_fill vs (i + 1) (q @ [l]) nd s')))
      else
        bindE (if node \<noteq> None then
                 (case v of
                    None \<Rightarrow> set_right node None s
                  | Some k \<Rightarrow>
                      (case make_shared k s of (new, s1) \<Rightarrow>
                         bindE (set_right node new s1) (\<lambda>s2.
                         bindE (right_of s2 node) (\<lambda>r. set_parent r node s2))))
               else Inr s) (\<lambda>s'.
        bindE (right_of s' node) (\<lambda>r. bfs_fill vs (i + 1) (child_queue @ [r]) node s')))"

definition from_bfs :: "'a option list \<Rightarrow> error + 'a tree" where
  "from_bfs tree_vec =
     (case tree_vec of
        [] \<Rightarrow> Inr empty_tree
      | None # vs \<Rightarrow> Inr empty_tree
      | Some k # vs \<Rightarrow>
          (case make_shared k empty_tree of (r, s) \<Rightarrow>
             bfs_fill vs 1 [r] None (s\<lparr>m_root := r\<rparr>)))"

section \<open>BinaryTree: height and traversals\<close>

text \<open>\<open>BinaryTree::height(node)\<close>; the height of a null subtree is \<open>-1\<close>.\<close>

partial_function (option) height_node :: "'a tree \<Rightarrow> ptr \<Rightarrow> (error + int) option" where
  [code]: "height_node s node =
     (if node = None then Some (Inr (- 1))
      else
        bindO (Some (left_of s node)) (\<lambda>l.
        bindO (height_node s l) (\<lambda>hl.
        bindO (Some (right_of s node)) (\<lambda>r.
        bindO (height_node s r) (\<lambda>hr.
        Some (Inr (max hl hr + 1)))))))"

definition height :: "'a tree \<Rightarrow> (error + int) option" where
  "height s = height_node s (m_root s)"

text \<open>
  A traversal calls the callback once per visited key. The callback is a function
  \<open>cb\<close> from the key and the state \<open>c\<close> it has built so far to its next state; the
  traversal returns the callback's last state. With \<open>cb = (\<lambda>k ks. ks @ [k])\<close> and
  \<open>c = []\<close> that state is the sequence of visited keys.
\<close>

partial_function (option) pre_order :: "'a tree \<Rightarrow> ptr \<Rightarrow> ('a \<Rightarrow> 'c \<Rightarrow> 'c) \<Rightarrow> 'c \<Rightarrow> (error + 'c) option" where
  [code]: "pre_order s node cb c =
     (if node = None then Some (Inr c)
      else
        bindO (Some (key_of s node)) (\<lambda>k.
        bindO (Some (left_of s node)) (\<lambda>l.
        bindO (pre_order s l cb (cb k c)) (\<lambda>c1.
        bindO (Some (right_of s node)) (\<lambda>r.
        pre_order s r cb c1)))))"

partial_function (option) in_order :: "'a tree \<Rightarrow> ptr \<Rightarrow> ('a \<Rightarrow> 'c \<Rightarrow> 'c) \<Rightarrow> 'c \<Rightarrow> (error + 'c) option" where
  [code]: "in_order s node cb c =
     (if node = None then Some (Inr c)
      else
        bindO (Some (left_of s node)) (\<lambda>l.
        bindO (in_order s l cb c) (\<lambda>c1.
        bindO (Some (key_of s node)) (\<lambda>k.
        bindO (Some (right_of s node)) (\<lambda>r.
        in_order s r cb (cb k c1))))))"

partial_function (option) post_order :: "'a tree \<Rightarrow> ptr \<Rightarrow> ('a \<Rightarrow> 'c \<Rightarrow> 'c) \<Rightarrow> 'c \<Rightarrow> (error + 'c) option" where
  [code]: "post_order s node cb c =
     (if node = None then Some (Inr c)
      else
        bindO (Some (left_of s node)) (\<lambda>l.
        bindO (post_order s l cb c) (\<lambda>c1.
        bindO (Some (right_of s node)) (\<lambda>r.
        bindO (post_order s r cb c1) (\<lambda>c2.
        bindO (Some (key_of s node)) (\<lambda>k.
        Some (Inr (cb k c2))))))))"

text \<open>The \<open>while\<close> loop of \<open>pre_order_iter\<close>; the head of \<open>stk\<close> is the top of the stack.\<close>

partial_function (option) pre_order_iter_loop :: "'a tree \<Rightarrow> ptr list \<Rightarrow> ('a \<Rightarrow> 'c \<Rightarrow> 'c) \<Rightarrow> 'c \<Rightarrow> (error + 'c) option" where
  [code]: "pre_order_iter_loop s stk cb c =
     (case stk of
        [] \<Rightarrow> Some (Inr c)
      | nd # stk0 \<Rightarrow>
          bindO (Some (key_of s nd)) (\<lambda>k.
          bindO (Some (right_of s nd)) (\<lambda>r.
          bindO (Some (left_of s nd)) (\<lambda>l.
          pre_order_iter_loop s
            ((if l \<noteq> None then [l] else []) @ (if r \<noteq> None then [r] else []) @ stk0)
            cb (cb k c)))))"

definition pre_order_iter :: "'a tree \<Rightarrow> ptr \<Rightarrow> ('a \<Rightarrow> 'c \<Rightarrow> 'c) \<Rightarrow> 'c \<Rightarrow> (error + 'c) option" where
  "pre_order_iter s node cb c =
     (if node = None then Some (Inr c) else pre_order_iter_loop s [node] cb c)"

text \<open>
  The loop of \<open>in_order_iter\<close>. Its condition \<open>!stk.empty() || nd\<close> fails exactly when
  \<open>nd\<close> is null and the stack is empty, which is the branch that returns.
\<close>

partial_function (option) in_order_iter_loop :: "'a tree \<Rightarrow> ptr list \<Rightarrow> ptr \<Rightarrow> ('a \<Rightarrow> 'c \<Rightarrow> 'c) \<Rightarrow> 'c \<Rightarrow> (error + 'c) option" where
  [code]: "in_order_iter_loop s stk nd cb c =
     (if nd \<noteq> None then
        bindO (Some (left_of s nd)) (\<lambda>l. in_order_iter_loop s (nd # stk) l cb c)
      else
        (case stk of
           [] \<Rightarrow> Some (Inr c)
         | t # stk0 \<Rightarrow>
             bindO (Some (key_of s t)) (\<lambda>k.
             bindO (Some (right_of s t)) (\<lambda>r.
             in_order_iter_loop s stk0 r cb (cb k c)))))"

definition in_order_iter :: "'a tree \<Rightarrow> ptr \<Rightarrow> ('a \<Rightarrow> 'c \<Rightarrow> 'c) \<Rightarrow> 'c \<Rightarrow> (error + 'c) option" where
  "in_order_iter s node cb c =
     (if node = None then Some (Inr c) else in_order_iter_loop s [] node cb c)"

text \<open>The two loops of \<open>post_order_iter_twostacks\<close>: fill \<open>stk2\<close>, then empty it.\<close>

partial_function (option) twostacks_fill :: "'a tree \<Rightarrow> ptr list \<Rightarrow> ptr list \<Rightarrow> (error + ptr list) option" where
  [code]: "twostacks_fill s stk1 stk2 =
     (case stk1 of
        [] \<Rightarrow> Some (Inr stk2)
      | nd # stk0 \<Rightarrow>
          bindO (Some (left_of s nd)) (\<lambda>l.
          bindO (Some (right_of s nd)) (\<lambda>r.
          twostacks_fill s
            ((if r \<noteq> None then [r] else []) @ (if l \<noteq> None then [l] else []) @ stk0)
            (nd # stk2))))"

fun twostacks_drain :: "'a tree \<Rightarrow> ptr list \<Rightarrow> ('a \<Rightarrow> 'c \<Rightarrow> 'c) \<Rightarrow> 'c \<Rightarrow> error + 'c" where
  "twostacks_drain s [] cb c = Inr c"
| "twostacks_drain s (t # stk2) cb c =
     bindE (key_of s t) (\<lambda>k. twostacks_drain s stk2 cb (cb k c))"

definition post_order_iter_twostacks :: "'a tree \<Rightarrow> ptr \<Rightarrow> ('a \<Rightarrow> 'c \<Rightarrow> 'c) \<Rightarrow> 'c \<Rightarrow> (error + 'c) option" where
  "post_order_iter_twostacks s node cb c =
     (if node = None then Some (Inr c)
      else bindO (twostacks_fill s [node] []) (\<lambda>stk2. Some (twostacks_drain s stk2 cb c)))"

text \<open>The loop of \<open>post_order_iter_onestack\<close>; \<open>last_nd\<close> is the local \<open>last\<close>, the node visited last.\<close>

partial_function (option) onestack_loop :: "'a tree \<Rightarrow> ptr list \<Rightarrow> ptr \<Rightarrow> ptr \<Rightarrow> ('a \<Rightarrow> 'c \<Rightarrow> 'c) \<Rightarrow> 'c \<Rightarrow> (error + 'c) option" where
  [code]: "onestack_loop s stk nd last_nd cb c =
     (if nd \<noteq> None then
        bindO (Some (left_of s nd)) (\<lambda>l. onestack_loop s (nd # stk) l last_nd cb c)
      else
        (case stk of
           [] \<Rightarrow> Some (Inr c)
         | t # stk0 \<Rightarrow>
             bindO (Some (right_of s t)) (\<lambda>r.
             if r = None \<or> last_nd = r then
               bindO (Some (key_of s t)) (\<lambda>k. onestack_loop s stk0 None t cb (cb k c))
             else onestack_loop s stk r last_nd cb c)))"

definition post_order_iter_onestack :: "'a tree \<Rightarrow> ptr \<Rightarrow> ('a \<Rightarrow> 'c \<Rightarrow> 'c) \<Rightarrow> 'c \<Rightarrow> (error + 'c) option" where
  "post_order_iter_onestack s node cb c =
     (if node = None then Some (Inr c) else onestack_loop s [] node None cb c)"

text \<open>The public traversals start at the root.\<close>

definition pre_order_traversal :: "'a tree \<Rightarrow> ('a \<Rightarrow> 'c \<Rightarrow> 'c) \<Rightarrow> 'c \<Rightarrow> (error + 'c) option" where
  "pre_order_traversal s cb c = pre_order s (m_root s) cb c"

definition in_order_traversal :: "'a tree \<Rightarrow> ('a \<Rightarrow> 'c \<Rightarrow> 'c) \<Rightarrow> 'c \<Rightarrow> (error + 'c) option" where
  "in_order_traversal s cb c = in_order s (m_root s) cb c"

definition post_order_traversal :: "'a tree \<Rightarrow> ('a \<Rightarrow> 'c \<Rightarrow> 'c) \<Rightarrow> 'c \<Rightarrow> (error + 'c) option" where
  "post_order_traversal s cb c = post_order s (m_root s) cb c"

definition pre_order_iter_traversal :: "'a tree \<Rightarrow> ('a \<Rightarrow> 'c \<Rightarrow> 'c) \<Rightarrow> 'c \<Rightarrow> (error + 'c) option" where
  "pre_order_iter_traversal s cb c = pre_order_iter s (m_root s) cb c"

definition in_order_iter_traversal :: "'a tree \<Rightarrow> ('a \<Rightarrow> 'c \<Rightarrow> 'c) \<Rightarrow> 'c \<Rightarrow> (error + 'c) option" where
  "in_order_iter_traversal s cb c = in_order_iter s (m_root s) cb c"

definition post_order_iter_traversal_twostacks :: "'a tree \<Rightarrow> ('a \<Rightarrow> 'c \<Rightarrow> 'c) \<Rightarrow> 'c \<Rightarrow> (error + 'c) option" where
  "post_order_iter_traversal_twostacks s cb c = post_order_iter_twostacks s (m_root s) cb c"

definition post_order_iter_traversal_onestack :: "'a tree \<Rightarrow> ('a \<Rightarrow> 'c \<Rightarrow> 'c) \<Rightarrow> 'c \<Rightarrow> (error + 'c) option" where
  "post_order_iter_traversal_onestack s cb c = post_order_iter_onestack s (m_root s) cb c"

text \<open>The callback that appends the key to the sequence visited so far.\<close>

definition visit :: "'a \<Rightarrow> 'a list \<Rightarrow> 'a list" where
  "visit k ks = ks @ [k]"

section \<open>BinarySearchTree\<close>

text \<open>
  \<open>in_order_find\<close> is the callback of \<open>find\<close>; it is bound to the object, whose three
  scratch members are its state. \<open>bst_find\<close> is \<open>BinarySearchTree::find\<close> and, further down,
  \<open>bst_insert\<close> is \<open>BinarySearchTree::insert\<close>, the recursive insertion.
\<close>

definition in_order_find :: "'a \<Rightarrow> 'a tree \<Rightarrow> 'a tree" where
  "in_order_find e self =
     (if is_found self then self
      else
        (let self1 = self\<lparr>find_count := find_count self + 1\<rparr>
         in if Some e = find_target_key self1 then self1\<lparr>is_found := True\<rparr> else self1))"

definition bst_find :: "'a \<Rightarrow> 'a tree \<Rightarrow> (error + int \<times> 'a tree) option" where
  "bst_find x s =
     bindO (in_order_traversal s in_order_find
              (s\<lparr>find_target_key := Some x, find_count := - 1, is_found := False\<rparr>)) (\<lambda>s1.
     (let s2 = (if \<not> is_found s1 then s1\<lparr>find_count := - 1\<rparr> else s1)
      in Some (Inr (find_count s2, s2))))"

partial_function (option) search_node :: "'a::linorder tree \<Rightarrow> ptr \<Rightarrow> 'a \<Rightarrow> (error + ptr) option" where
  [code]: "search_node s node x =
     (if node = None then Some (Inr node)
      else
        bindO (Some (key_of s node)) (\<lambda>k.
        if x = k then Some (Inr node)
        else if x < k then bindO (Some (left_of s node)) (\<lambda>l. search_node s l x)
        else bindO (Some (right_of s node)) (\<lambda>r. search_node s r x)))"

definition search :: "'a::linorder \<Rightarrow> 'a tree \<Rightarrow> (error + bool) option" where
  "search x s = bindO (search_node s (m_root s) x) (\<lambda>nd. Some (Inr (nd \<noteq> None)))"

partial_function (option) minimum_node :: "'a tree \<Rightarrow> ptr \<Rightarrow> (error + ptr) option" where
  [code]: "minimum_node s nd =
     (if nd = None then Some (Inr nd)
      else
        bindO (Some (left_of s nd)) (\<lambda>l.
        if l = None then Some (Inr nd) else minimum_node s l))"

partial_function (option) maximum_node :: "'a tree \<Rightarrow> ptr \<Rightarrow> (error + ptr) option" where
  [code]: "maximum_node s nd =
     (if nd = None then Some (Inr nd)
      else
        bindO (Some (right_of s nd)) (\<lambda>r.
        if r = None then Some (Inr nd) else maximum_node s r))"

text \<open>The upward loops of \<open>successor(node)\<close> and \<open>predecessor(node)\<close>.\<close>

partial_function (option) successor_loop :: "'a tree \<Rightarrow> ptr \<Rightarrow> ptr \<Rightarrow> (error + ptr) option" where
  [code]: "successor_loop s nd par =
     (if par = None then Some (Inr par)
      else
        bindO (Some (right_of s par)) (\<lambda>r.
        if nd = r then bindO (Some (parent_of s par)) (\<lambda>pp. successor_loop s par pp)
        else Some (Inr par)))"

partial_function (option) predecessor_loop :: "'a tree \<Rightarrow> ptr \<Rightarrow> ptr \<Rightarrow> (error + ptr) option" where
  [code]: "predecessor_loop s nd par =
     (if par = None then Some (Inr par)
      else
        bindO (Some (left_of s par)) (\<lambda>l.
        if nd = l then bindO (Some (parent_of s par)) (\<lambda>pp. predecessor_loop s par pp)
        else Some (Inr par)))"

definition successor_node :: "'a tree \<Rightarrow> ptr \<Rightarrow> (error + ptr) option" where
  "successor_node s node =
     (if node = None then Some (Inr None)
      else
        bindO (Some (right_of s node)) (\<lambda>r.
        if r \<noteq> None then minimum_node s r
        else bindO (Some (parent_of s node)) (\<lambda>par. successor_loop s node par)))"

definition predecessor_node :: "'a tree \<Rightarrow> ptr \<Rightarrow> (error + ptr) option" where
  "predecessor_node s node =
     (if node = None then Some (Inr None)
      else
        bindO (Some (left_of s node)) (\<lambda>l.
        if l \<noteq> None then maximum_node s l
        else bindO (Some (parent_of s node)) (\<lambda>par. predecessor_loop s node par)))"

text \<open>
  The public queries are \<^verbatim>\<open>const\<close> member functions: they return a key or throw, and
  have no access to change the object.
\<close>

definition minimum :: "'a tree \<Rightarrow> (error + 'a) option" where
  "minimum s =
     (if m_root s = None then Some (Inl EmptyTreeError)
      else bindO (minimum_node s (m_root s)) (\<lambda>nd. Some (key_of s nd)))"

definition maximum :: "'a tree \<Rightarrow> (error + 'a) option" where
  "maximum s =
     (if m_root s = None then Some (Inl EmptyTreeError)
      else bindO (maximum_node s (m_root s)) (\<lambda>nd. Some (key_of s nd)))"

definition successor :: "'a::linorder \<Rightarrow> 'a tree \<Rightarrow> (error + 'a) option" where
  "successor x s =
     (if m_root s = None then Some (Inl EmptyTreeError)
      else
        bindO (search_node s (m_root s) x) (\<lambda>x_node.
        if x_node = None then Some (Inl ValueError)
        else
          bindO (successor_node s x_node) (\<lambda>node.
          if node = None then Some (Inl ValueError) else Some (key_of s node))))"

definition predecessor :: "'a::linorder \<Rightarrow> 'a tree \<Rightarrow> (error + 'a) option" where
  "predecessor x s =
     (if m_root s = None then Some (Inl EmptyTreeError)
      else
        bindO (search_node s (m_root s) x) (\<lambda>x_node.
        if x_node = None then Some (Inl ValueError)
        else
          bindO (predecessor_node s x_node) (\<lambda>node.
          if node = None then Some (Inl ValueError) else Some (key_of s node))))"

text \<open>
  \<open>_iter_insert\<close> and \<open>_rec_insert\<close> (an Isabelle name cannot start with an underscore).
  \<open>iter_insert_loop\<close> is the descent of \<open>_iter_insert\<close> and returns the final \<open>par_nd\<close>.
\<close>

partial_function (option) iter_insert_loop :: "'a::linorder tree \<Rightarrow> 'a \<Rightarrow> ptr \<Rightarrow> ptr \<Rightarrow> (error + ptr) option" where
  [code]: "iter_insert_loop s x par_nd cur_nd =
     (if cur_nd = None then Some (Inr par_nd)
      else
        bindO (Some (key_of s cur_nd)) (\<lambda>k.
        if x < k then bindO (Some (left_of s cur_nd)) (\<lambda>l. iter_insert_loop s x cur_nd l)
        else bindO (Some (right_of s cur_nd)) (\<lambda>r. iter_insert_loop s x cur_nd r)))"

definition priv_iter_insert :: "'a::linorder \<Rightarrow> 'a tree \<Rightarrow> (error + ptr \<times> 'a tree) option" where
  "priv_iter_insert x s =
     (case make_shared x s of (new_nd, s0) \<Rightarrow>
        bindO (iter_insert_loop s0 x None (m_root s0)) (\<lambda>par_nd.
        bindO (Some (set_parent new_nd par_nd s0)) (\<lambda>s1.
        if par_nd = None then Some (Inr (new_nd, s1\<lparr>m_root := new_nd\<rparr>))
        else
          bindO (Some (key_of s1 par_nd)) (\<lambda>k.
          if x < k then bindO (Some (set_left par_nd new_nd s1)) (\<lambda>s2. Some (Inr (new_nd, s2)))
          else bindO (Some (set_right par_nd new_nd s1)) (\<lambda>s2. Some (Inr (new_nd, s2)))))))"

partial_function (option) priv_rec_insert :: "ptr \<Rightarrow> 'a::linorder \<Rightarrow> 'a tree \<Rightarrow> (error + ptr \<times> 'a tree) option" where
  [code]: "priv_rec_insert node x s =
     (if node = None then Some (Inr (make_shared x s))
      else
        bindO (Some (key_of s node)) (\<lambda>k.
        if x < k then
          bindO (Some (left_of s node)) (\<lambda>l.
          bindO (priv_rec_insert l x s) (\<lambda>res.
          bindO (Some (set_left node (fst res) (snd res))) (\<lambda>s2.
          bindO (Some (left_of s2 node)) (\<lambda>l2.
          bindO (Some (set_parent l2 node s2)) (\<lambda>s3.
          Some (Inr (node, s3)))))))
        else
          bindO (Some (right_of s node)) (\<lambda>r.
          bindO (priv_rec_insert r x s) (\<lambda>res.
          bindO (Some (set_right node (fst res) (snd res))) (\<lambda>s2.
          bindO (Some (right_of s2 node)) (\<lambda>r2.
          bindO (Some (set_parent r2 node s2)) (\<lambda>s3.
          Some (Inr (node, s3)))))))))"

definition iter_insert :: "'a::linorder \<Rightarrow> 'a tree \<Rightarrow> (error + 'a tree) option" where
  "iter_insert x s = bindO (priv_iter_insert x s) (\<lambda>res. Some (Inr (snd res)))"

definition bst_insert :: "'a::linorder \<Rightarrow> 'a tree \<Rightarrow> (error + 'a tree) option" where
  "bst_insert x s =
     bindO (priv_rec_insert (m_root s) x s) (\<lambda>res. Some (Inr ((snd res)\<lparr>m_root := fst res\<rparr>)))"

definition transplant :: "ptr \<Rightarrow> ptr \<Rightarrow> 'a tree \<Rightarrow> error + 'a tree" where
  "transplant u v s =
     (if m_root s = u then
        (let s1 = s\<lparr>m_root := v\<rparr>
         in bindE (parent_of s1 u) (\<lambda>up. set_parent v up s1))
      else
        bindE (parent_of s u) (\<lambda>par.
        bindE (left_of s par) (\<lambda>pl.
        bindE (if u = pl then set_left par v s else set_right par v s) (\<lambda>s1.
        if v \<noteq> None then set_parent v par s1 else Inr s1))))"

definition remove_node :: "ptr \<Rightarrow> 'a tree \<Rightarrow> (error + 'a tree) option" where
  "remove_node node s =
     bindO (Some (left_of s node)) (\<lambda>l.
     bindO (Some (right_of s node)) (\<lambda>r.
     if l = None then Some (transplant node r s)
     else if r = None then Some (transplant node l s)
     else
       bindO (successor_node s node) (\<lambda>suc.
       bindO (if r \<noteq> suc then
                bindO (Some (right_of s suc)) (\<lambda>sr.
                bindO (Some (transplant suc sr s)) (\<lambda>s1.
                bindO (Some (right_of s1 node)) (\<lambda>nr.
                bindO (Some (set_right suc nr s1)) (\<lambda>s2.
                bindO (Some (right_of s2 suc)) (\<lambda>sr2.
                Some (set_parent sr2 suc s2))))))
              else Some (Inr s)) (\<lambda>s3.
       bindO (Some (transplant node suc s3)) (\<lambda>s4.
       bindO (Some (left_of s4 node)) (\<lambda>nl.
       bindO (Some (set_left suc nl s4)) (\<lambda>s5.
       bindO (Some (left_of s5 suc)) (\<lambda>sl.
       Some (set_parent sl suc s5)))))))))"

text \<open>
  \<open>remove(const T&)\<close> is the one public operation that both throws and changes the
  object: \<open>Thrown e s'\<close> is an exception \<open>e\<close> leaving the object in state \<open>s'\<close>,
  \<open>Undefined e\<close> undefined behaviour (after which the object has no state to speak of),
  \<open>Returned s'\<close> a normal return.
\<close>

datatype 'a outcome = Returned "'a tree" | Thrown error "'a tree" | Undefined error

definition remove :: "'a::linorder \<Rightarrow> 'a tree \<Rightarrow> 'a outcome option" where
  "remove x s =
     (if m_root s = None then Some (Thrown EmptyTreeError s)
      else
        (case search_node s (m_root s) x of
           None \<Rightarrow> None
         | Some (Inl e) \<Rightarrow> Some (Undefined e)
         | Some (Inr x_node) \<Rightarrow>
             if x_node = None then Some (Thrown ValueError s)
             else
               (case remove_node x_node s of
                  None \<Rightarrow> None
                | Some (Inl e) \<Rightarrow> Some (Undefined e)
                | Some (Inr s') \<Rightarrow> Some (Returned s'))))"

section \<open>AVLTree\<close>

definition note_rotation :: "rotation \<Rightarrow> 'a tree \<Rightarrow> 'a tree" where
  "note_rotation r s = s\<lparr>rot_log := rot_log s @ [r]\<rparr>"

text \<open>
  The body of the loop of \<open>rebalance\<close>, up to the step to the parent. The heights are
  computed on entry; no statement between two reads of the same height writes the store.
\<close>

definition rebalance_body :: "ptr \<Rightarrow> 'a tree \<Rightarrow> (error + 'a tree) option" where
  "rebalance_body x s =
     bindO (Some (left_of s x)) (\<lambda>l.
     bindO (height_node s l) (\<lambda>hl.
     bindO (Some (right_of s x)) (\<lambda>r.
     bindO (height_node s r) (\<lambda>hr.
     if hl > hr + 1 then
       bindO (Some (left_of s l)) (\<lambda>ll.
       bindO (height_node s ll) (\<lambda>hll.
       bindO (Some (right_of s l)) (\<lambda>lr.
       bindO (height_node s lr) (\<lambda>hlr.
       if hll \<ge> hlr then Some (right_rotate x (note_rotation (RightRotate x) s))
       else
         bindO (Some (left_rotate l (note_rotation (LeftRotate l) s))) (\<lambda>s1.
         Some (right_rotate x (note_rotation (RightRotate x) s1)))))))
     else if hr > hl + 1 then
       bindO (Some (right_of s r)) (\<lambda>rr.
       bindO (height_node s rr) (\<lambda>hrr.
       bindO (Some (left_of s r)) (\<lambda>rl.
       bindO (height_node s rl) (\<lambda>hrl.
       if hrr \<ge> hrl then Some (left_rotate x (note_rotation (LeftRotate x) s))
       else
         bindO (Some (right_rotate r (note_rotation (RightRotate r) s))) (\<lambda>s1.
         Some (left_rotate x (note_rotation (LeftRotate x) s1)))))))
     else Some (Inr s)))))"

partial_function (option) rebalance :: "ptr \<Rightarrow> 'a tree \<Rightarrow> (error + 'a tree) option" where
  [code]: "rebalance x s =
     (if x = None then Some (Inr s)
      else
        bindO (rebalance_body x s) (\<lambda>s1.
        bindO (Some (parent_of s1 x)) (\<lambda>p.
        rebalance p s1)))"

definition avl_insert :: "'a::linorder \<Rightarrow> 'a tree \<Rightarrow> (error + 'a tree) option" where
  "avl_insert e s = bindO (priv_iter_insert e s) (\<lambda>res. rebalance (fst res) (snd res))"

text \<open>
  Sequences of insertions into a tree: by either insertion of \<open>BinarySearchTree\<close>, and by
  \<open>AVLTree::insert\<close> (the loop of the constructor \<open>AVLTree(const vector<T>&)\<close>).
\<close>

datatype 'a insertion = IterInsert 'a | RecInsert 'a

fun inserted_key :: "'a insertion \<Rightarrow> 'a" where
  "inserted_key (IterInsert x) = x"
| "inserted_key (RecInsert x) = x"

fun bst_inserts :: "'a::linorder insertion list \<Rightarrow> 'a tree \<Rightarrow> (error + 'a tree) option" where
  "bst_inserts [] s = Some (Inr s)"
| "bst_inserts (IterInsert x # ops) s = bindO (iter_insert x s) (bst_inserts ops)"
| "bst_inserts (RecInsert x # ops) s = bindO (bst_insert x s) (bst_inserts ops)"

fun avl_inserts :: "'a::linorder list \<Rightarrow> 'a tree \<Rightarrow> (error + 'a tree) option" where
  "avl_inserts [] s = Some (Inr s)"
| "avl_inserts (e # es) s = bindO (avl_insert e s) (avl_inserts es)"

section \<open>The shape of a tree in the store\<close>

text \<open>
  A \<open>shape\<close> describes the pointer graph below a pointer: \<open>Tip\<close> for a null pointer,
  \<open>Fork l a k r\<close> for the node at address \<open>a\<close> with key \<open>k\<close> and the shapes of its two
  children. \<open>rep h par t\<close> says that the store \<open>h\<close> holds the nodes of \<open>t\<close>, linked as
  \<open>t\<close> says, the parent reference of the topmost node being \<open>par\<close>. \<open>wf_tree s t\<close> says
  that the object \<open>s\<close> is the tree \<open>t\<close>: the root points to it, no node occurs twice, and
  every node has been handed out by the allocator.
\<close>

datatype 'a shape = Tip | Fork "'a shape" addr 'a "'a shape"

fun root_ptr :: "'a shape \<Rightarrow> ptr" where
  "root_ptr Tip = None"
| "root_ptr (Fork l a k r) = Some a"

fun addrs :: "'a shape \<Rightarrow> addr list" where
  "addrs Tip = []"
| "addrs (Fork l a k r) = addrs l @ a # addrs r"

fun rep :: "(addr \<Rightarrow> 'a node option) \<Rightarrow> ptr \<Rightarrow> 'a shape \<Rightarrow> bool" where
  "rep h par Tip = True"
| "rep h par (Fork l a k r) =
     (h a = Some \<lparr>m_key = k, m_left = root_ptr l, m_right = root_ptr r, m_parent = par\<rparr> \<and>
      rep h (Some a) l \<and> rep h (Some a) r)"

definition wf_tree :: "'a tree \<Rightarrow> 'a shape \<Rightarrow> bool" where
  "wf_tree s t =
     (m_root s = root_ptr t \<and> rep (nodes s) None t \<and> distinct (addrs t) \<and>
      list_all (\<lambda>a. a < next_addr s) (addrs t))"

text \<open>The keys of a shape in the three orders, and its height (\<open>-1\<close> for \<open>Tip\<close>).\<close>

fun inorder :: "'a shape \<Rightarrow> 'a list" where
  "inorder Tip = []"
| "inorder (Fork l a k r) = inorder l @ k # inorder r"

fun preorder :: "'a shape \<Rightarrow> 'a list" where
  "preorder Tip = []"
| "preorder (Fork l a k r) = k # preorder l @ preorder r"

fun postorder :: "'a shape \<Rightarrow> 'a list" where
  "postorder Tip = []"
| "postorder (Fork l a k r) = postorder l @ postorder r @ [k]"

fun ht :: "'a shape \<Rightarrow> int" where
  "ht Tip = - 1"
| "ht (Fork l a k r) = max (ht l) (ht r) + 1"

text \<open>
  The two invariants of the specification, on shapes. \<open>bst_strict\<close> is the ordering
  invariant as the specification words it (left keys strictly smaller, right keys
  greater or equal); \<open>bst_weak\<close> allows equal keys on the left as well.
\<close>

fun bst_strict :: "'a::linorder shape \<Rightarrow> bool" where
  "bst_strict Tip = True"
| "bst_strict (Fork l a k r) =
     (list_all (\<lambda>x. x < k) (inorder l) \<and> list_all (\<lambda>x. k \<le> x) (inorder r) \<and>
      bst_strict l \<and> bst_strict r)"

fun bst_weak :: "'a::linorder shape \<Rightarrow> bool" where
  "bst_weak Tip = True"
| "bst_weak (Fork l a k r) =
     (list_all (\<lambda>x. x \<le> k) (inorder l) \<and> list_all (\<lambda>x. k \<le> x) (inorder r) \<and>
      bst_weak l \<and> bst_weak r)"

fun avl :: "'a shape \<Rightarrow> bool" where
  "avl Tip = True"
| "avl (Fork l a k r) = (\<bar>ht l - ht r\<bar> \<le> 1 \<and> avl l \<and> avl r)"

text \<open>
  A subtree inside a tree: the path from the subtree up to the root is a list of
  frames, nearest parent first. \<open>LeftOf a k r\<close> is a parent at \<open>a\<close> with key \<open>k\<close> whose left
  child is the subtree and whose right child has shape \<open>r\<close>; \<open>RightOf l a k\<close> is the
  mirror image. \<open>plug t fs\<close> is the whole tree.
\<close>

datatype 'a frame = LeftOf addr 'a "'a shape" | RightOf "'a shape" addr 'a

fun plug :: "'a shape \<Rightarrow> 'a frame list \<Rightarrow> 'a shape" where
  "plug t [] = t"
| "plug t (LeftOf a k r # fs) = plug (Fork t a k r) fs"
| "plug t (RightOf l a k # fs) = plug (Fork l a k t) fs"

fun top :: "'a frame list \<Rightarrow> ptr" where
  "top [] = None"
| "top (LeftOf a k r # fs) = Some a"
| "top (RightOf l a k # fs) = Some a"

fun faddrs :: "'a frame list \<Rightarrow> addr list" where
  "faddrs [] = []"
| "faddrs (LeftOf a k r # fs) = a # addrs r @ faddrs fs"
| "faddrs (RightOf l a k # fs) = a # addrs l @ faddrs fs"

text \<open>
  \<open>ctx h root fs p\<close>: the store \<open>h\<close> holds the frames \<open>fs\<close>, the child slot of the nearest
  frame (or the root pointer \<open>root\<close>, when there is no frame) holding \<open>p\<close>.
\<close>

fun ctx :: "(addr \<Rightarrow> 'a node option) \<Rightarrow> ptr \<Rightarrow> 'a frame list \<Rightarrow> ptr \<Rightarrow> bool" where
  "ctx h root [] p = (root = p)"
| "ctx h root (LeftOf a k r # fs) p =
     (h a = Some \<lparr>m_key = k, m_left = p, m_right = root_ptr r, m_parent = top fs\<rparr> \<and>
      rep h (Some a) r \<and> ctx h root fs (Some a))"
| "ctx h root (RightOf l a k # fs) p =
     (h a = Some \<lparr>m_key = k, m_left = root_ptr l, m_right = p, m_parent = top fs\<rparr> \<and>
      rep h (Some a) l \<and> ctx h root fs (Some a))"

section \<open>Insertion and rebalancing on shapes\<close>

text \<open>
  The counterparts on shapes of the insertion and of the rebalancing walk, used to
  state what the code does to a well-formed tree. \<open>descend x t fs\<close> is the path the loop
  of \<open>_iter_insert\<close> takes from the top of \<open>t\<close> (itself under the frames \<open>fs\<close>) to the null
  slot where the key \<open>x\<close> belongs; \<open>ins n x t\<close> is \<open>t\<close> with a new leaf at address \<open>n\<close> in
  that slot. \<open>rebal t\<close> is the shape that one pass of the loop body of \<open>rebalance\<close> at the
  top node of \<open>t\<close> leaves (the same tests on the heights, the same rotations);
  \<open>rebal_up t fs\<close> applies it to \<open>t\<close> and then to every node on the path \<open>fs\<close> up to the
  root. \<open>near_avl t\<close> says that both children of the top node of \<open>t\<close> are balanced and
  that their heights differ by at most 2; \<open>up_ok t fs\<close> says that \<open>near_avl\<close> holds at every
  node the walk visits. \<open>levels t\<close> is \<open>ht t + 1\<close> as a natural number, and \<open>dirs_ok x fs\<close>
  says that the path \<open>fs\<close> is one the key \<open>x\<close> descends.
\<close>

fun descend :: "'a::linorder \<Rightarrow> 'a shape \<Rightarrow> 'a frame list \<Rightarrow> 'a frame list" where
  "descend x Tip fs = fs"
| "descend x (Fork l a k r) fs =
     (if x < k then descend x l (LeftOf a k r # fs) else descend x r (RightOf l a k # fs))"

fun ins :: "addr \<Rightarrow> 'a::linorder \<Rightarrow> 'a shape \<Rightarrow> 'a shape" where
  "ins n x Tip = Fork Tip n x Tip"
| "ins n x (Fork l a k r) = (if x < k then Fork (ins n x l) a k r else Fork l a k (ins n x r))"

fun rebal :: "'a shape \<Rightarrow> 'a shape" where
  "rebal Tip = Tip"
| "rebal (Fork l x k r) =
     (if ht l > ht r + 1 then
        (case l of
           Tip \<Rightarrow> Fork l x k r
         | Fork ll y ky lr \<Rightarrow>
             if ht ll \<ge> ht lr then Fork ll y ky (Fork lr x k r)
             else
               (case lr of
                  Tip \<Rightarrow> Fork l x k r
                | Fork b z kz c \<Rightarrow> Fork (Fork ll y ky b) z kz (Fork c x k r)))
      else if ht r > ht l + 1 then
        (case r of
           Tip \<Rightarrow> Fork l x k r
         | Fork rl y ky rr \<Rightarrow>
             if ht rr \<ge> ht rl then Fork (Fork l x k rl) y ky rr
             else
               (case rl of
                  Tip \<Rightarrow> Fork l x k r
                | Fork b z kz c \<Rightarrow> Fork (Fork l x k b) z kz (Fork c y ky rr)))
      else Fork l x k r)"

fun rebal_up :: "'a shape \<Rightarrow> 'a frame list \<Rightarrow> 'a shape" where
  "rebal_up t [] = rebal t"
| "rebal_up t (f # fs) = rebal_up (plug (rebal t) [f]) fs"

fun near_avl :: "'a shape \<Rightarrow> bool" where
  "near_avl Tip = False"
| "near_avl (Fork l a k r) = (avl l \<and> avl r \<and> \<bar>ht l - ht r\<bar> \<le> 2)"

fun levels :: "'a shape \<Rightarrow> nat" where
  "levels Tip = 0"
| "levels (Fork l a k r) = max (levels l) (levels r) + 1"

fun up_ok :: "'a shape \<Rightarrow> 'a frame list \<Rightarrow> bool" where
  "up_ok t [] = near_avl t"
| "up_ok t (f # fs) = (near_avl t \<and> up_ok (plug (rebal t) [f]) fs)"

fun dirs_ok :: "'a::linorder \<Rightarrow> 'a frame list \<Rightarrow> bool" where
  "dirs_ok x [] = True"
| "dirs_ok x (LeftOf a k r # fs) = (x < k \<and> dirs_ok x fs)"
| "dirs_ok x (RightOf l a k # fs) = (\<not> x < k \<and> dirs_ok x fs)"

text \<open>
  Two notions for the proofs about the iterative post-order traversals: the addresses of
  a shape in post-order, and the condition on the local \<open>last\<close> of
  \<open>post_order_iter_onestack\<close> under which a subtree is traversed as a whole (it names no
  node of that subtree).
\<close>

fun post_addrs :: "'a shape \<Rightarrow> addr list" where
  "post_addrs Tip = []"
| "post_addrs (Fork l a k r) = post_addrs l @ post_addrs r @ [a]"

fun last_ok :: "ptr \<Rightarrow> 'a shape \<Rightarrow> bool" where
  "last_ok None t = True"
| "last_ok (Some a) t = (a \<notin> set (addrs t))"

text \<open>
  \<open>parent_changed s s'\<close> is the set of addresses whose node has another parent
  back-reference in \<open>s'\<close> than in \<open>s\<close>.
\<close>

definition parent_changed :: "'a tree \<Rightarrow> 'a tree \<Rightarrow> addr set" where
  "parent_changed s s' =
     {a. map_option m_parent (nodes s' a) \<noteq> map_option m_parent (nodes s a)}"

section \<open>Example trees\<close>

text \<open>
  \<open>mk_tree h root n\<close> is the object with store \<open>h\<close>, root \<open>root\<close> and \<open>n\<close> allocated nodes.
  \<open>one_node\<close> is the tree of the single key 5. \<open>chain3\<close> is the right-leaning chain
  10, 20, 30. In \<open>zig_right\<close> the root 10 has the right child 30, whose left child is 20;
  in \<open>zig_left\<close> the root 30 has the left child 10, whose right child is 20.
\<close>

definition mk_tree :: "(addr \<Rightarrow> 'a node option) \<Rightarrow> ptr \<Rightarrow> nat \<Rightarrow> 'a tree" where
  "mk_tree h root n =
     \<lparr>nodes = h, m_root = root, find_target_key = None, find_count = 0, is_found = False,
      next_addr = n, rot_log = []\<rparr>"

definition one_node :: "int tree" where
  "one_node =
     mk_tree ((\<lambda>a. None)
       (0 \<mapsto> \<lparr>m_key = 5, m_left = None, m_right = None, m_parent = None\<rparr>)) (Some 0) 1"

definition chain3 :: "int tree" where
  "chain3 =
     mk_tree ((\<lambda>a. None)
       (0 \<mapsto> \<lparr>m_key = 10, m_left = None, m_right = Some 1, m_parent = None\<rparr>,
        1 \<mapsto> \<lparr>m_key = 20, m_left = None, m_right = Some 2, m_parent = Some 0\<rparr>,
        2 \<mapsto> \<lparr>m_key = 30, m_left = None, m_right = None, m_parent = Some 1\<rparr>)) (Some 0) 3"

definition zig_right :: "int tree" where
  "zig_right =
     mk_tree ((\<lambda>a. None)
       (0 \<mapsto> \<lparr>m_key = 10, m_left = None, m_right = Some 1, m_parent = None\<rparr>,
        1 \<mapsto> \<lparr>m_key = 30, m_left = Some 2, m_right = None, m_parent = Some 0\<rparr>,
        2 \<mapsto> \<lparr>m_key = 20, m_left = None, m_right = None, m_parent = Some 1\<rparr>)) (Some 0) 3"

definition zig_left :: "int tree" where
  "zig_left =
     mk_tree ((\<lambda>a. None)
       (0 \<mapsto> \<lparr>m_key = 30, m_left = Some 1, m_right = None, m_parent = None\<rparr>,
        1 \<mapsto> \<lparr>m_key = 10, m_left = None, m_right = Some 2, m_parent = Some 0\<rparr>,
        2 \<mapsto> \<lparr>m_key = 20, m_left = None, m_right = None, m_parent = Some 1\<rparr>)) (Some 0) 3"

section \<open>Basic facts about the primitives\<close>

lemma bindE_Inl [simp]: "bindE (Inl e) f = Inl e"
  by (simp add: bindE_def)

lemma bindE_Inr [simp]: "bindE (Inr v) f = f v"
  by (simp add: bindE_def)

lemma bindE_weak_cong [cong]: "m = m' \<Longrightarrow> bindE m f = bindE m' f"
  by simp

lemma deref_Some [simp]: "nodes s a = Some n \<Longrightarrow> deref s (Some a) = Inr n"
  by (simp add: deref_def)

lemma deref_None [simp]: "deref s None = Inl NullDeref"
  by (simp add: deref_def)

lemma store_node_Some [simp]:
  "nodes s a = Some n \<Longrightarrow> store_node (Some a) f s = Inr (s\<lparr>nodes := (nodes s)(a \<mapsto> f n)\<rparr>)"
  by (simp add: store_node_def)

lemma store_node_None [simp]: "store_node None f s = Inl NullDeref"
  by (simp add: store_node_def)

lemmas field_defs =
  key_of_def left_of_def right_of_def parent_of_def set_left_def set_right_def set_parent_def

section \<open>Facts about shapes\<close>

lemma rep_cong:
  "(\<And>a. a \<in> set (addrs t) \<Longrightarrow> h' a = h a) \<Longrightarrow> rep h' par t = rep h par t"
  by (induction t arbitrary: par) auto

lemma rep_upd [simp]: "a \<notin> set (addrs t) \<Longrightarrow> rep (h(a := v)) par t = rep h par t"
  by (rule rep_cong) auto

lemma ctx_cong:
  "(\<And>a. a \<in> set (faddrs fs) \<Longrightarrow> h' a = h a) \<Longrightarrow> ctx h' root fs p = ctx h root fs p"
proof (induction h root fs p rule: ctx.induct)
  case (1 h root p)
  then show ?case by simp
next
  case (2 h root a k r fs p)
  then show ?case using rep_cong [of r h' h "Some a"] by auto
next
  case (3 h root l a k fs p)
  then show ?case using rep_cong [of l h' h "Some a"] by auto
qed

lemma ctx_upd [simp]: "a \<notin> set (faddrs fs) \<Longrightarrow> ctx (h(a := v)) root fs p = ctx h root fs p"
  by (rule ctx_cong) auto

lemma plug_rep:
  "(root = root_ptr (plug t fs) \<and> rep h None (plug t fs)) =
   (rep h (top fs) t \<and> ctx h root fs (root_ptr t))"
  by (induction t fs rule: plug.induct) auto

lemma set_addrs_plug: "set (addrs (plug t fs)) = set (addrs t) \<union> set (faddrs fs)"
  by (induction t fs rule: plug.induct) auto

lemma distinct_addrs_plug:
  "distinct (addrs (plug t fs)) =
   (distinct (addrs t) \<and> distinct (faddrs fs) \<and> set (addrs t) \<inter> set (faddrs fs) = {})"
  by (induction t fs rule: plug.induct) (auto simp: set_addrs_plug)

lemma wf_tree_plug:
  "wf_tree s (plug t fs) =
   (rep (nodes s) (top fs) t \<and> ctx (nodes s) (m_root s) fs (root_ptr t) \<and>
    distinct (addrs t) \<and> distinct (faddrs fs) \<and>
    set (addrs t) \<inter> set (faddrs fs) = {} \<and>
    (\<forall>a \<in> set (addrs t) \<union> set (faddrs fs). a < next_addr s))"
  unfolding wf_tree_def using plug_rep [of "m_root s" t fs "nodes s"]
  by (auto simp: distinct_addrs_plug set_addrs_plug list_all_iff)

lemma root_ptr_neq [simp]:
  "a \<notin> set (addrs t) \<Longrightarrow> root_ptr t \<noteq> Some a"
  "a \<notin> set (addrs t) \<Longrightarrow> Some a \<noteq> root_ptr t"
  by (cases t; auto)+

lemma plug_append: "plug t (fs @ gs) = plug (plug t fs) gs"
  by (induction t fs rule: plug.induct) auto

text \<open>Every node of a tree is the top of a subtree under some path of frames.\<close>

lemma addr_focus:
  "x \<in> set (addrs t) \<Longrightarrow> \<exists>l k r fs. t = plug (Fork l x k r) fs"
proof (induction t)
  case Tip
  then show ?case by simp
next
  case (Fork l a k r)
  consider "x = a" | "x \<in> set (addrs l)" | "x \<in> set (addrs r)"
    using Fork.prems by auto
  then show ?case
  proof cases
    case 1
    then have "Fork l a k r = plug (Fork l x k r) []" by simp
    then show ?thesis by blast
  next
    case 2
    then obtain l' k' r' fs where "l = plug (Fork l' x k' r') fs"
      using Fork.IH(1) by blast
    then have "Fork l a k r = plug (Fork l' x k' r') (fs @ [LeftOf a k r])"
      by (simp add: plug_append)
    then show ?thesis by blast
  next
    case 3
    then obtain l' k' r' fs where "r = plug (Fork l' x k' r') fs"
      using Fork.IH(2) by blast
    then have "Fork l a k r = plug (Fork l' x k' r') (fs @ [RightOf l a k])"
      by (simp add: plug_append)
    then show ?thesis by blast
  qed
qed

section \<open>Rotations on well-formed trees\<close>

lemma left_rotate_effect:
  assumes "wf_tree s (plug (Fork l x k (Fork b y ky g)) fs)"
  shows "\<exists>s'. left_rotate (Some x) s = Inr s' \<and>
           wf_tree s' (plug (Fork (Fork l x k b) y ky g) fs) \<and>
           next_addr s' = next_addr s \<and> rot_log s' = rot_log s \<and>
           (\<forall>a. a \<noteq> x \<and> a \<noteq> y \<and> root_ptr b \<noteq> Some a \<and> top fs \<noteq> Some a \<longrightarrow>
                nodes s' a = nodes s a) \<and>
           parent_changed s s' = {x, y} \<union> set_option (root_ptr b)"
proof -
  note a = assms [unfolded wf_tree_plug]
  show ?thesis
    unfolding wf_tree_plug parent_changed_def using a
    by (cases fs rule: top.cases; cases b) (auto simp: left_rotate_def field_defs)
qed

lemma right_rotate_effect:
  assumes "wf_tree s (plug (Fork (Fork g y ky b) x k r) fs)"
  shows "\<exists>s'. right_rotate (Some x) s = Inr s' \<and>
           wf_tree s' (plug (Fork g y ky (Fork b x k r)) fs) \<and>
           next_addr s' = next_addr s \<and> rot_log s' = rot_log s \<and>
           (\<forall>a. a \<noteq> x \<and> a \<noteq> y \<and> root_ptr b \<noteq> Some a \<and> top fs \<noteq> Some a \<longrightarrow>
                nodes s' a = nodes s a) \<and>
           parent_changed s s' = {x, y} \<union> set_option (root_ptr b)"
proof -
  note a = assms [unfolded wf_tree_plug]
  show ?thesis
    unfolding wf_tree_plug parent_changed_def using a
    by (cases fs rule: top.cases; cases b) (auto simp: right_rotate_def field_defs)
qed

lemma empty_tree_wf: "wf_tree empty_tree Tip"
  by (simp add: wf_tree_def empty_tree_def)

lemma example_trees_wf:
  "wf_tree one_node (Fork Tip 0 5 Tip)"
  "wf_tree chain3 (Fork Tip 0 10 (Fork Tip 1 20 (Fork Tip 2 30 Tip)))"
  "wf_tree zig_right (Fork Tip 0 10 (Fork (Fork Tip 2 20 Tip) 1 30 Tip))"
  "wf_tree zig_left (Fork (Fork Tip 1 10 (Fork Tip 2 20 Tip)) 0 30 Tip)"
  by (simp_all add: wf_tree_def one_node_def chain3_def zig_right_def zig_left_def mk_tree_def)

section \<open>Reads, searches and traversals on well-formed trees\<close>

lemma read_Some [simp]:
  "nodes s a = Some n \<Longrightarrow> key_of s (Some a) = Inr (m_key n)"
  "nodes s a = Some n \<Longrightarrow> left_of s (Some a) = Inr (m_left n)"
  "nodes s a = Some n \<Longrightarrow> right_of s (Some a) = Inr (m_right n)"
  "nodes s a = Some n \<Longrightarrow> parent_of s (Some a) = Inr (m_parent n)"
  by (simp_all add: field_defs)

lemma search_node_rep:
  "rep (nodes s) par t \<Longrightarrow>
   \<exists>p. search_node s (root_ptr t) x = Some (Inr p) \<and> (p \<noteq> None \<longrightarrow> x \<in> set (inorder t))"
proof (induction t arbitrary: par)
  case Tip
  then show ?case by (subst search_node.simps) simp
next
  case (Fork l a k r)
  from Fork.prems have n: "nodes s a = Some \<lparr>m_key = k, m_left = root_ptr l, m_right = root_ptr r, m_parent = par\<rparr>"
    and rl: "rep (nodes s) (Some a) l" and rr: "rep (nodes s) (Some a) r"
    by simp_all
  from Fork.IH(1) [OF rl] obtain pl where
    pl: "search_node s (root_ptr l) x = Some (Inr pl)" "pl \<noteq> None \<longrightarrow> x \<in> set (inorder l)"
    by blast
  from Fork.IH(2) [OF rr] obtain pr where
    pr: "search_node s (root_ptr r) x = Some (Inr pr)" "pr \<noteq> None \<longrightarrow> x \<in> set (inorder r)"
    by blast
  show ?case
    using n pl pr by (subst search_node.simps) auto
qed

lemma height_node_rep:
  "rep (nodes s) par t \<Longrightarrow> height_node s (root_ptr t) = Some (Inr (ht t))"
proof (induction t arbitrary: par)
  case Tip
  then show ?case by (subst height_node.simps) simp
next
  case (Fork l a k r)
  then show ?case by (subst height_node.simps) auto
qed

lemma pre_order_rep:
  "rep (nodes s) par t \<Longrightarrow> pre_order s (root_ptr t) cb c = Some (Inr (fold cb (preorder t) c))"
proof (induction t arbitrary: par c)
  case Tip
  then show ?case by (subst pre_order.simps) simp
next
  case (Fork l a k r)
  then show ?case by (subst pre_order.simps) auto
qed

lemma in_order_rep:
  "rep (nodes s) par t \<Longrightarrow> in_order s (root_ptr t) cb c = Some (Inr (fold cb (inorder t) c))"
proof (induction t arbitrary: par c)
  case Tip
  then show ?case by (subst in_order.simps) simp
next
  case (Fork l a k r)
  then show ?case by (subst in_order.simps) auto
qed

lemma post_order_rep:
  "rep (nodes s) par t \<Longrightarrow> post_order s (root_ptr t) cb c = Some (Inr (fold cb (postorder t) c))"
proof (induction t arbitrary: par c)
  case Tip
  then show ?case by (subst post_order.simps) simp
next
  case (Fork l a k r)
  then show ?case by (subst post_order.simps) auto
qed

lemma pre_order_iter_loop_rep:
  "rep (nodes s) par t \<Longrightarrow> t \<noteq> Tip \<Longrightarrow>
   pre_order_iter_loop s (root_ptr t # stk) cb c =
   pre_order_iter_loop s stk cb (fold cb (preorder t) c)"
proof (induction t arbitrary: par c stk)
  case Tip
  then show ?case by simp
next
  case (Fork l a k r)
  have l: "l \<noteq> Tip \<Longrightarrow> pre_order_iter_loop s (root_ptr l # stk') cb c' =
      pre_order_iter_loop s stk' cb (fold cb (preorder l) c')" for stk' c'
    using Fork.IH(1) Fork.prems by auto
  have r: "r \<noteq> Tip \<Longrightarrow> pre_order_iter_loop s (root_ptr r # stk') cb c' =
      pre_order_iter_loop s stk' cb (fold cb (preorder r) c')" for stk' c'
    using Fork.IH(2) Fork.prems by auto
  from Fork.prems have n: "nodes s a = Some \<lparr>m_key = k, m_left = root_ptr l, m_right = root_ptr r, m_parent = par\<rparr>"
    by simp
  show ?case
    apply (subst pre_order_iter_loop.simps)
    using n l r
    apply (cases l; cases r)
       apply (simp_all)
    done
qed

lemma in_order_iter_loop_rep:
  "rep (nodes s) par t \<Longrightarrow>
   in_order_iter_loop s stk (root_ptr t) cb c =
   in_order_iter_loop s stk None cb (fold cb (inorder t) c)"
proof (induction t arbitrary: par c stk)
  case Tip
  then show ?case by simp
next
  case (Fork l a k r)
  from Fork.prems have n: "nodes s a = Some \<lparr>m_key = k, m_left = root_ptr l, m_right = root_ptr r, m_parent = par\<rparr>"
    and rl: "rep (nodes s) (Some a) l" and rr: "rep (nodes s) (Some a) r"
    by simp_all
  have "in_order_iter_loop s stk (Some a) cb c = in_order_iter_loop s (Some a # stk) (root_ptr l) cb c"
    using n by (subst in_order_iter_loop.simps) simp
  also have "\<dots> = in_order_iter_loop s (Some a # stk) None cb (fold cb (inorder l) c)"
    using Fork.IH(1) [OF rl] .
  also have "\<dots> = in_order_iter_loop s stk (root_ptr r) cb (cb k (fold cb (inorder l) c))"
    using n by (subst in_order_iter_loop.simps) simp
  also have "\<dots> = in_order_iter_loop s stk None cb (fold cb (inorder r) (cb k (fold cb (inorder l) c)))"
    using Fork.IH(2) [OF rr] .
  finally show ?case by simp
qed


lemma twostacks_fill_rep:
  "rep (nodes s) par t \<Longrightarrow> t \<noteq> Tip \<Longrightarrow>
   twostacks_fill s (root_ptr t # stk1) stk2 =
   twostacks_fill s stk1 (map Some (post_addrs t) @ stk2)"
proof (induction t arbitrary: par stk1 stk2)
  case Tip
  then show ?case by simp
next
  case (Fork l a k r)
  have l: "l \<noteq> Tip \<Longrightarrow> twostacks_fill s (root_ptr l # st1) st2 =
      twostacks_fill s st1 (map Some (post_addrs l) @ st2)" for st1 st2
    using Fork.IH(1) Fork.prems by auto
  have r: "r \<noteq> Tip \<Longrightarrow> twostacks_fill s (root_ptr r # st1) st2 =
      twostacks_fill s st1 (map Some (post_addrs r) @ st2)" for st1 st2
    using Fork.IH(2) Fork.prems by auto
  from Fork.prems have n: "nodes s a = Some \<lparr>m_key = k, m_left = root_ptr l, m_right = root_ptr r, m_parent = par\<rparr>"
    by simp
  show ?case
    apply (subst twostacks_fill.simps)
    using n l r
    apply (cases l; cases r)
       apply (simp_all)
    done
qed

lemma twostacks_drain_rep:
  "rep (nodes s) par t \<Longrightarrow>
   twostacks_drain s (map Some (post_addrs t) @ stk) cb c =
   twostacks_drain s stk cb (fold cb (postorder t) c)"
proof (induction t arbitrary: par stk c)
  case Tip
  then show ?case by simp
next
  case (Fork l a k r)
  from Fork.prems have n: "nodes s a = Some \<lparr>m_key = k, m_left = root_ptr l, m_right = root_ptr r, m_parent = par\<rparr>"
    and rl: "rep (nodes s) (Some a) l" and rr: "rep (nodes s) (Some a) r"
    by simp_all
  show ?case
    using Fork.IH(1) [OF rl] Fork.IH(2) [OF rr] n by simp
qed

lemma onestack_loop_rep:
  "rep (nodes s) par t \<Longrightarrow> distinct (addrs t) \<Longrightarrow> last_ok lst t \<Longrightarrow>
   onestack_loop s stk (root_ptr t) lst cb c =
   onestack_loop s stk None (if t = Tip then lst else root_ptr t) cb (fold cb (postorder t) c)"
proof (induction t arbitrary: par stk lst c)
  case Tip
  then show ?case by simp
next
  case (Fork l a k r)
  from Fork.prems have n: "nodes s a = Some \<lparr>m_key = k, m_left = root_ptr l, m_right = root_ptr r, m_parent = par\<rparr>"
    and rl: "rep (nodes s) (Some a) l" and rr: "rep (nodes s) (Some a) r"
    and dl: "distinct (addrs l)" and dr: "distinct (addrs r)"
    and disj: "set (addrs l) \<inter> set (addrs r) = {}"
    by simp_all
  define lst1 where "lst1 = (if l = Tip then lst else root_ptr l)"
  define c1 where "c1 = fold cb (postorder l) c"
  have ok_l: "last_ok lst l" using Fork.prems(3) by (cases lst) auto
  have ok_r: "last_ok lst1 r"
    using Fork.prems(3) disj unfolding lst1_def by (cases lst; cases l) auto
  have neq: "r \<noteq> Tip \<Longrightarrow> lst1 \<noteq> root_ptr r"
    using ok_r by (cases lst1; cases r) auto
  have "onestack_loop s stk (Some a) lst cb c = onestack_loop s (Some a # stk) (root_ptr l) lst cb c"
    using n by (subst onestack_loop.simps) simp
  also have "\<dots> = onestack_loop s (Some a # stk) None lst1 cb c1"
    unfolding lst1_def c1_def using Fork.IH(1) [OF rl dl ok_l] .
  also have "\<dots> = onestack_loop s stk None (Some a) cb (cb k (fold cb (postorder r) c1))"
  proof (cases r)
    case Tip
    then show ?thesis using n by (subst onestack_loop.simps) simp
  next
    case (Fork rl' ra' rk' rr')
    then have rne: "r \<noteq> Tip" by simp
    have "onestack_loop s (Some a # stk) None lst1 cb c1 =
          onestack_loop s (Some a # stk) (root_ptr r) lst1 cb c1"
      using n neq [OF rne] Fork by (subst onestack_loop.simps) auto
    also have "\<dots> = onestack_loop s (Some a # stk) None (root_ptr r) cb (fold cb (postorder r) c1)"
      using Fork.IH(2) [OF rr dr ok_r] rne by simp
    also have "\<dots> = onestack_loop s stk None (Some a) cb (cb k (fold cb (postorder r) c1))"
      using n Fork by (subst onestack_loop.simps) simp
    finally show ?thesis .
  qed
  finally show ?case by (simp add: c1_def)
qed


lemma pre_order_iter_rep:
  "rep (nodes s) par t \<Longrightarrow> pre_order_iter s (root_ptr t) cb c = Some (Inr (fold cb (preorder t) c))"
proof (cases t)
  case Tip
  then show ?thesis by (simp add: pre_order_iter_def)
next
  case (Fork l a k r)
  assume "rep (nodes s) par t"
  then have "pre_order_iter_loop s [root_ptr t] cb c =
             pre_order_iter_loop s [] cb (fold cb (preorder t) c)"
    using Fork by (intro pre_order_iter_loop_rep) auto
  also have "\<dots> = Some (Inr (fold cb (preorder t) c))"
    by (subst pre_order_iter_loop.simps) simp
  finally show ?thesis using Fork by (simp add: pre_order_iter_def)
qed

lemma in_order_iter_rep:
  "rep (nodes s) par t \<Longrightarrow> in_order_iter s (root_ptr t) cb c = Some (Inr (fold cb (inorder t) c))"
proof (cases t)
  case Tip
  then show ?thesis by (simp add: in_order_iter_def)
next
  case (Fork l a k r)
  assume "rep (nodes s) par t"
  then have "in_order_iter_loop s [] (root_ptr t) cb c =
             in_order_iter_loop s [] None cb (fold cb (inorder t) c)"
    by (rule in_order_iter_loop_rep)
  also have "\<dots> = Some (Inr (fold cb (inorder t) c))"
    by (subst in_order_iter_loop.simps) simp
  finally show ?thesis using Fork by (simp add: in_order_iter_def)
qed

lemma post_order_iter_twostacks_rep:
  "rep (nodes s) par t \<Longrightarrow>
   post_order_iter_twostacks s (root_ptr t) cb c = Some (Inr (fold cb (postorder t) c))"
proof (cases t)
  case Tip
  then show ?thesis by (simp add: post_order_iter_twostacks_def)
next
  case (Fork l a k r)
  assume rp: "rep (nodes s) par t"
  then have "twostacks_fill s [root_ptr t] [] = twostacks_fill s [] (map Some (post_addrs t) @ [])"
    using Fork by (intro twostacks_fill_rep) auto
  also have "\<dots> = Some (Inr (map Some (post_addrs t) @ []))"
    by (subst twostacks_fill.simps) simp
  finally have "twostacks_fill s [root_ptr t] [] = Some (Inr (map Some (post_addrs t) @ []))" .
  moreover have "twostacks_drain s (map Some (post_addrs t) @ []) cb c = Inr (fold cb (postorder t) c)"
    using twostacks_drain_rep [OF rp, of "[]" cb c] by simp
  ultimately show ?thesis using Fork by (simp add: post_order_iter_twostacks_def)
qed

lemma post_order_iter_onestack_rep:
  "rep (nodes s) par t \<Longrightarrow> distinct (addrs t) \<Longrightarrow>
   post_order_iter_onestack s (root_ptr t) cb c = Some (Inr (fold cb (postorder t) c))"
proof (cases t)
  case Tip
  then show ?thesis by (simp add: post_order_iter_onestack_def)
next
  case (Fork l a k r)
  assume "rep (nodes s) par t" "distinct (addrs t)"
  then have "onestack_loop s [] (root_ptr t) None cb c =
             onestack_loop s [] None (if t = Tip then None else root_ptr t) cb (fold cb (postorder t) c)"
    by (intro onestack_loop_rep) auto
  also have "\<dots> = Some (Inr (fold cb (postorder t) c))"
    by (subst onestack_loop.simps) simp
  finally show ?thesis using Fork by (simp add: post_order_iter_onestack_def)
qed

lemma fold_find_found: "is_found s0 \<Longrightarrow> fold in_order_find ks s0 = s0"
  by (induction ks) (simp_all add: in_order_find_def)

lemma fold_find:
  "\<not> is_found s0 \<Longrightarrow> find_target_key s0 = Some x \<Longrightarrow>
   fold in_order_find ks s0 =
     (if x \<in> set ks
      then s0\<lparr>find_count := find_count s0 + 1 + int (length (takeWhile (\<lambda>k. k \<noteq> x) ks)),
              is_found := True\<rparr>
      else s0\<lparr>find_count := find_count s0 + int (length ks)\<rparr>)"
proof (induction ks arbitrary: s0)
  case Nil
  then show ?case by simp
next
  case (Cons k ks)
  show ?case
  proof (cases "k = x")
    case True
    let ?s1 = "s0\<lparr>find_count := find_count s0 + 1, is_found := True\<rparr>"
    have "in_order_find k s0 = ?s1" using True Cons.prems by (simp add: in_order_find_def)
    moreover have "fold in_order_find ks ?s1 = ?s1" by (rule fold_find_found) simp
    ultimately show ?thesis using True by simp
  next
    case False
    let ?s1 = "s0\<lparr>find_count := find_count s0 + 1\<rparr>"
    have "in_order_find k s0 = ?s1" using False Cons.prems by (simp add: in_order_find_def)
    moreover have "\<not> is_found ?s1" "find_target_key ?s1 = Some x" using Cons.prems by simp_all
    ultimately show ?thesis using Cons.IH [of ?s1] False by simp
  qed
qed

lemma first_index:
  "x \<in> set ks \<Longrightarrow>
   length (takeWhile (\<lambda>k. k \<noteq> x) ks) < length ks \<and>
   ks ! length (takeWhile (\<lambda>k. k \<noteq> x) ks) = x"
  by (induction ks) auto

lemma before_first_index:
  "j < length (takeWhile (\<lambda>k. k \<noteq> x) ks) \<Longrightarrow> ks ! j \<noteq> x"
  by (induction ks arbitrary: j) (auto simp: nth_Cons split: nat.splits if_splits)

section \<open>Insertion and rebalancing on well-formed trees\<close>

lemma ht_levels: "ht t = int (levels t) - 1"
  by (induction t) auto

lemma inorder_rebal [simp]: "inorder (rebal t) = inorder t"
  by (cases t) (simp_all split: shape.splits)

lemma rebal_balanced: "avl t \<Longrightarrow> rebal t = t"
  by (cases t) auto

lemma avl_rebal_left:
  assumes "avl (Fork ll y ky lr)" "avl r" "ht (Fork ll y ky lr) = ht r + 2"
  shows "avl (rebal (Fork (Fork ll y ky lr) x k r))"
proof (cases "ht ll \<ge> ht lr")
  case True
  then show ?thesis using assms by auto
next
  case False
  then have "0 \<le> ht lr" using ht_levels [of ll] by linarith
  then obtain b z kz c where lr: "lr = Fork b z kz c" by (cases lr) auto
  show ?thesis using False assms ht_levels [of b] ht_levels [of c] unfolding lr by auto
qed

lemma avl_rebal_right:
  assumes "avl l" "avl (Fork rl y ky rr)" "ht (Fork rl y ky rr) = ht l + 2"
  shows "avl (rebal (Fork l x k (Fork rl y ky rr)))"
proof (cases "ht rr \<ge> ht rl")
  case True
  then show ?thesis using assms by auto
next
  case False
  then have "0 \<le> ht rl" using ht_levels [of rr] by linarith
  then obtain b z kz c where rl: "rl = Fork b z kz c" by (cases rl) auto
  show ?thesis using False assms ht_levels [of b] ht_levels [of c] unfolding rl by auto
qed

lemma ht_rebal_left:
  assumes "avl (Fork ll y ky lr)" "avl r" "ht (Fork ll y ky lr) = ht r + 2"
  shows "ht (rebal (Fork (Fork ll y ky lr) x k r)) = ht r + 3 \<or>
         ht (rebal (Fork (Fork ll y ky lr) x k r)) = ht r + 2"
proof (cases "ht ll \<ge> ht lr")
  case True
  then show ?thesis using assms by auto
next
  case False
  then have "0 \<le> ht lr" using ht_levels [of ll] by linarith
  then obtain b z kz c where lr: "lr = Fork b z kz c" by (cases lr) auto
  show ?thesis using False assms ht_levels [of b] ht_levels [of c] unfolding lr by auto
qed

lemma ht_rebal_right:
  assumes "avl l" "avl (Fork rl y ky rr)" "ht (Fork rl y ky rr) = ht l + 2"
  shows "ht (rebal (Fork l x k (Fork rl y ky rr))) = ht l + 3 \<or>
         ht (rebal (Fork l x k (Fork rl y ky rr))) = ht l + 2"
proof (cases "ht rr \<ge> ht rl")
  case True
  then show ?thesis using assms by auto
next
  case False
  then have "0 \<le> ht rl" using ht_levels [of rr] by linarith
  then obtain b z kz c where rl: "rl = Fork b z kz c" by (cases rl) auto
  show ?thesis using False assms ht_levels [of b] ht_levels [of c] unfolding rl by auto
qed

declare rebal.simps [simp del]

lemma near_avl_cases:
  assumes "near_avl t"
  obtains (left) ll y ky lr x k r where
      "t = Fork (Fork ll y ky lr) x k r" "avl (Fork ll y ky lr)" "avl r"
      "ht (Fork ll y ky lr) = ht r + 2"
    | (right) l x k rl y ky rr where
      "t = Fork l x k (Fork rl y ky rr)" "avl l" "avl (Fork rl y ky rr)"
      "ht (Fork rl y ky rr) = ht l + 2"
    | (balanced) "avl t"
proof -
  from assms obtain l x k r where t: "t = Fork l x k r" by (cases t) auto
  have "ht l = ht r + 2 \<or> ht r = ht l + 2 \<or> \<bar>ht l - ht r\<bar> \<le> 1"
    using assms unfolding t by simp linarith
  then consider "ht l = ht r + 2" | "ht r = ht l + 2" | "\<bar>ht l - ht r\<bar> \<le> 1"
    by blast
  then show thesis
  proof cases
    case 1
    then have "0 \<le> ht l" using ht_levels [of r] by linarith
    then obtain ll y ky lr where l: "l = Fork ll y ky lr" by (cases l) auto
    show ?thesis using left [of ll y ky lr x k r] assms 1 unfolding t l
      by simp
  next
    case 2
    then have "0 \<le> ht r" using ht_levels [of l] by linarith
    then obtain rl y ky rr where r: "r = Fork rl y ky rr" by (cases r) auto
    show ?thesis using right [of l x k rl y ky rr] assms 2 unfolding t r
      by simp
  next
    case 3
    then show ?thesis using balanced assms unfolding t by simp
  qed
qed

lemma avl_rebal:
  assumes "near_avl t"
  shows "avl (rebal t)"
  using assms
proof (cases rule: near_avl_cases)
  case (left ll y ky lr x k r)
  then show ?thesis using avl_rebal_left [of ll y ky lr r x k] by simp
next
  case (right l x k rl y ky rr)
  then show ?thesis using avl_rebal_right [of l rl y ky rr x k] by simp
next
  case balanced
  then show ?thesis by (simp add: rebal_balanced)
qed

lemma ht_rebal:
  assumes "near_avl (Fork l a k r)"
  shows "ht (rebal (Fork l a k r)) = max (ht l) (ht r) + 1 \<or>
   (\<bar>ht l - ht r\<bar> = 2 \<and> ht (rebal (Fork l a k r)) = max (ht l) (ht r))"
proof -
  have "ht l = ht r + 2 \<or> ht r = ht l + 2 \<or> \<bar>ht l - ht r\<bar> \<le> 1"
    using assms by simp linarith
  then consider "ht l = ht r + 2" | "ht r = ht l + 2" | "\<bar>ht l - ht r\<bar> \<le> 1"
    by blast
  then show ?thesis
  proof cases
    case 1
    then have "0 \<le> ht l" using ht_levels [of r] by linarith
    then obtain ll y ky lr where l: "l = Fork ll y ky lr" by (cases l) auto
    show ?thesis using ht_rebal_left [of ll y ky lr r a k] assms 1 unfolding l
      by auto
  next
    case 2
    then have "0 \<le> ht r" using ht_levels [of l] by linarith
    then obtain rl y ky rr where r: "r = Fork rl y ky rr" by (cases r) auto
    show ?thesis using ht_rebal_right [of l rl y ky rr a k] assms 2 unfolding r
      by auto
  next
    case 3
    then have "avl (Fork l a k r)" using assms by simp
    then show ?thesis by (simp add: rebal_balanced)
  qed
qed

lemma avl_plug: "avl (plug t fs) \<Longrightarrow> avl t"
  by (induction t fs rule: plug.induct) auto

lemma inorder_plug_cong:
  "inorder t = inorder t' \<Longrightarrow> inorder (plug t fs) = inorder (plug t' fs)"
  by (induction t fs arbitrary: t' rule: plug.induct) auto

lemma inorder_rebal_up: "inorder (rebal_up t fs) = inorder (plug t fs)"
proof (induction t fs rule: rebal_up.induct)
  case (1 t)
  then show ?case by simp
next
  case (2 t f fs)
  have "inorder (plug (plug (rebal t) [f]) fs) = inorder (plug (plug t [f]) fs)"
    by (rule inorder_plug_cong) (cases f; simp)
  then show ?case using 2 by (cases f) simp_all
qed

lemma plug_descend: "plug (Fork Tip n x Tip) (descend x t fs) = plug (ins n x t) fs"
  by (induction t arbitrary: fs) auto

lemma plug_Tip_descend: "plug Tip (descend x t fs) = plug t fs"
  by (induction t arbitrary: fs) auto

lemma inorder_ins_set: "set (inorder (ins n x t)) = Set.insert x (set (inorder t))"
  by (induction t) auto

lemma mset_inorder_ins: "mset (inorder (ins n x t)) = add_mset x (mset (inorder t))"
  by (induction t) auto

lemma bst_strict_ins: "bst_strict t \<Longrightarrow> bst_strict (ins n x t)"
  by (induction t) (auto simp: list_all_iff inorder_ins_set)

lemma bst_weak_ins: "bst_weak t \<Longrightarrow> bst_weak (ins n x t)"
  by (induction t) (auto simp: list_all_iff inorder_ins_set)

lemma bst_strict_weak: "bst_strict t \<Longrightarrow> bst_weak t"
  by (induction t) (auto simp: list_all_iff)

lemma sorted_around:
  "sorted (xs @ k # ys) =
   (sorted xs \<and> sorted ys \<and> (\<forall>x\<in>set xs. x \<le> k) \<and> (\<forall>y\<in>set ys. k \<le> y))"
proof
  assume "sorted (xs @ k # ys)"
  then show "sorted xs \<and> sorted ys \<and> (\<forall>x\<in>set xs. x \<le> k) \<and> (\<forall>y\<in>set ys. k \<le> y)"
    by (simp add: sorted_append)
next
  assume a: "sorted xs \<and> sorted ys \<and> (\<forall>x\<in>set xs. x \<le> k) \<and> (\<forall>y\<in>set ys. k \<le> y)"
  then have "\<forall>x\<in>set xs. \<forall>y\<in>set ys. x \<le> y"
    using order_trans by blast
  with a show "sorted (xs @ k # ys)"
    by (simp add: sorted_append)
qed

lemma bst_weak_sorted: "bst_weak t = sorted (inorder t)"
  by (induction t) (simp_all add: list_all_iff sorted_around, blast)

lemma rebal_up_avl:
  "near_avl t \<Longrightarrow> avl (plug t0 fs) \<Longrightarrow> ht t0 \<le> ht (rebal t) \<Longrightarrow> ht (rebal t) \<le> ht t0 + 1 \<Longrightarrow>
   up_ok t fs \<and> avl (rebal_up t fs)"
proof (induction t fs arbitrary: t0 rule: rebal_up.induct)
  case (1 t)
  then show ?case by (simp add: avl_rebal)
next
  case (2 t f fs)
  have a: "avl (rebal t)" using 2(2) by (simp add: avl_rebal)
  show ?case
  proof (cases f)
    case (LeftOf a k r)
    with 2 have p: "avl (plug (Fork t0 a k r) fs)" by simp
    then have b: "avl (Fork t0 a k r)" by (rule avl_plug)
    have n: "near_avl (Fork (rebal t) a k r)" using a b 2(3,4,5) by auto
    have n': "near_avl (plug (rebal t) [f])" using n LeftOf by simp
    have "ht (Fork t0 a k r) \<le> ht (rebal (Fork (rebal t) a k r)) \<and>
          ht (rebal (Fork (rebal t) a k r)) \<le> ht (Fork t0 a k r) + 1"
      using ht_rebal [OF n] b 2(4,5) by auto
    then show ?thesis using 2(1) [OF n' p] 2(2) LeftOf by simp
  next
    case (RightOf l a k)
    with 2 have p: "avl (plug (Fork l a k t0) fs)" by simp
    then have b: "avl (Fork l a k t0)" by (rule avl_plug)
    have n: "near_avl (Fork l a k (rebal t))" using a b 2(3,4,5) by auto
    have n': "near_avl (plug (rebal t) [f])" using n RightOf by simp
    have "ht (Fork l a k t0) \<le> ht (rebal (Fork l a k (rebal t))) \<and>
          ht (rebal (Fork l a k (rebal t))) \<le> ht (Fork l a k t0) + 1"
      using ht_rebal [OF n] b 2(4,5) by auto
    then show ?thesis using 2(1) [OF n' p] 2(2) RightOf by simp
  qed
qed

lemma set_addrs_ins: "set (addrs (ins n x t)) = Set.insert n (set (addrs t))"
  by (induction t) auto

lemma distinct_addrs_ins:
  "n \<notin> set (addrs t) \<Longrightarrow> distinct (addrs t) \<Longrightarrow> distinct (addrs (ins n x t))"
  by (induction t) (auto simp: set_addrs_ins)

lemma root_ptr_ins: "root_ptr (ins n x t) = (if t = Tip then Some n else root_ptr t)"
  by (cases t) auto

lemma dirs_ok_descend: "dirs_ok x fs \<Longrightarrow> dirs_ok x (descend x t fs)"
  by (induction t arbitrary: fs) auto

lemma iter_insert_loop_rep:
  "rep (nodes s) (top fs) t \<Longrightarrow>
   iter_insert_loop s x (top fs) (root_ptr t) = Some (Inr (top (descend x t fs)))"
proof (induction t arbitrary: fs)
  case Tip
  then show ?case by (subst iter_insert_loop.simps) simp
next
  case (Fork l a k r)
  from Fork.prems have n: "nodes s a = Some \<lparr>m_key = k, m_left = root_ptr l, m_right = root_ptr r, m_parent = top fs\<rparr>"
    and rl: "rep (nodes s) (Some a) l" and rr: "rep (nodes s) (Some a) r"
    by simp_all
  show ?case
    using n Fork.IH(1) [of "LeftOf a k r # fs"] Fork.IH(2) [of "RightOf l a k # fs"] rl rr
    by (subst iter_insert_loop.simps) simp
qed

lemma priv_iter_insert_wf:
  assumes "wf_tree s t"
  shows "\<exists>s'. priv_iter_insert x s = Some (Inr (Some (next_addr s), s')) \<and>
           wf_tree s' (plug (Fork Tip (next_addr s) x Tip) (descend x t [])) \<and>
           next_addr s' = Suc (next_addr s)"
proof -
  define fs where "fs = descend x t []"
  define s0 where "s0 = snd (make_shared x s)"
  have t: "plug Tip fs = t" unfolding fs_def by (simp add: plug_Tip_descend)
  have d: "dirs_ok x fs" unfolding fs_def by (rule dirs_ok_descend) simp
  from assms have fresh: "next_addr s \<notin> set (addrs t)"
    by (auto simp: wf_tree_def list_all_iff)
  have "rep (nodes s0) None t"
    using assms fresh by (simp add: s0_def make_shared_def wf_tree_def)
  then have "iter_insert_loop s0 x (top []) (root_ptr t) = Some (Inr (top (descend x t [])))"
    using iter_insert_loop_rep [of s0 "[]" t x] by simp
  then have loop: "iter_insert_loop s0 x None (m_root s) = Some (Inr (top fs))"
    using assms by (simp add: fs_def wf_tree_def)
  from assms have w: "wf_tree s (plug Tip fs)" by (simp add: t)
  note w' = w [unfolded wf_tree_plug]
  from w' have fr: "next_addr s \<notin> set (faddrs fs)" by auto
  show ?thesis
    unfolding priv_iter_insert_def fs_def [symmetric] wf_tree_plug
    using loop w' d fr
    by (cases fs rule: top.cases)
       (auto simp: s0_def make_shared_def field_defs intro: less_SucI)
qed

lemma wf_note_rotation [simp]: "wf_tree (note_rotation e s) t = wf_tree s t"
  by (simp add: wf_tree_def note_rotation_def)

lemma note_rotation_fields [simp]:
  "nodes (note_rotation e s) = nodes s" "next_addr (note_rotation e s) = next_addr s"
  "m_root (note_rotation e s) = m_root s"
  by (simp_all add: note_rotation_def)

lemma rebalance_body_left:
  assumes wf: "wf_tree s (plug (Fork (Fork ll y ky lr) x k r) fs)"
    and h: "ht (Fork ll y ky lr) > ht r + 1"
  shows "\<exists>s'. rebalance_body (Some x) s = Some (Inr s') \<and>
           wf_tree s' (plug (rebal (Fork (Fork ll y ky lr) x k r)) fs) \<and>
           next_addr s' = next_addr s"
proof -
  note w = wf [unfolded wf_tree_plug]
  from w have n: "nodes s x = Some \<lparr>m_key = k, m_left = Some y, m_right = root_ptr r, m_parent = top fs\<rparr>"
    and ny: "nodes s y = Some \<lparr>m_key = ky, m_left = root_ptr ll, m_right = root_ptr lr, m_parent = Some x\<rparr>"
    and rl: "rep (nodes s) (Some x) (Fork ll y ky lr)" and rr: "rep (nodes s) (Some x) r"
    and rll: "rep (nodes s) (Some y) ll" and rlr: "rep (nodes s) (Some y) lr"
    by simp_all
  have hl: "height_node s (Some y) = Some (Inr (ht (Fork ll y ky lr)))"
    using height_node_rep [OF rl] by simp
  note hr = height_node_rep [OF rr]
  note hll = height_node_rep [OF rll]
  note hlr = height_node_rep [OF rlr]
  show ?thesis
  proof (cases "ht ll \<ge> ht lr")
    case True
    then have rb: "rebal (Fork (Fork ll y ky lr) x k r) = Fork ll y ky (Fork lr x k r)"
      using h by (simp add: rebal.simps)
    have body: "rebalance_body (Some x) s = Some (right_rotate (Some x) (note_rotation (RightRotate (Some x)) s))"
      using n ny hl hr hll hlr h True by (simp add: rebalance_body_def)
    have "wf_tree (note_rotation (RightRotate (Some x)) s) (plug (Fork (Fork ll y ky lr) x k r) fs)"
      using wf by simp
    from right_rotate_effect [OF this] show ?thesis
      unfolding body rb by auto
  next
    case False
    then have "0 \<le> ht lr" using ht_levels [of ll] by linarith
    then obtain b z kz c where lr: "lr = Fork b z kz c" by (cases lr) auto
    have rb: "rebal (Fork (Fork ll y ky lr) x k r) = Fork (Fork ll y ky b) z kz (Fork c x k r)"
      using h False unfolding lr by (simp add: rebal.simps)
    have body: "rebalance_body (Some x) s =
        bindO (Some (left_rotate (Some y) (note_rotation (LeftRotate (Some y)) s)))
          (\<lambda>s1. Some (right_rotate (Some x) (note_rotation (RightRotate (Some x)) s1)))"
      using n ny hl hr hll hlr h False by (simp add: rebalance_body_def)
    have "wf_tree (note_rotation (LeftRotate (Some y)) s)
            (plug (Fork ll y ky (Fork b z kz c)) (LeftOf x k r # fs))"
      using wf unfolding lr by simp
    from left_rotate_effect [OF this] obtain s1 where
      s1: "left_rotate (Some y) (note_rotation (LeftRotate (Some y)) s) = Inr s1"
          "wf_tree s1 (plug (Fork (Fork ll y ky b) z kz c) (LeftOf x k r # fs))"
          "next_addr s1 = next_addr s"
      by auto
    have "wf_tree (note_rotation (RightRotate (Some x)) s1)
            (plug (Fork (Fork (Fork ll y ky b) z kz c) x k r) fs)"
      using s1(2) by simp
    from right_rotate_effect [OF this] show ?thesis
      unfolding body rb using s1(1,3) by auto
  qed
qed

lemma rebalance_body_right:
  assumes wf: "wf_tree s (plug (Fork l x k (Fork rl y ky rr)) fs)"
    and h: "ht (Fork rl y ky rr) > ht l + 1"
  shows "\<exists>s'. rebalance_body (Some x) s = Some (Inr s') \<and>
           wf_tree s' (plug (rebal (Fork l x k (Fork rl y ky rr))) fs) \<and>
           next_addr s' = next_addr s"
proof -
  note w = wf [unfolded wf_tree_plug]
  from w have n: "nodes s x = Some \<lparr>m_key = k, m_left = root_ptr l, m_right = Some y, m_parent = top fs\<rparr>"
    and ny: "nodes s y = Some \<lparr>m_key = ky, m_left = root_ptr rl, m_right = root_ptr rr, m_parent = Some x\<rparr>"
    and rr': "rep (nodes s) (Some x) (Fork rl y ky rr)" and rl': "rep (nodes s) (Some x) l"
    and rrl: "rep (nodes s) (Some y) rl" and rrr: "rep (nodes s) (Some y) rr"
    by simp_all
  have hr: "height_node s (Some y) = Some (Inr (ht (Fork rl y ky rr)))"
    using height_node_rep [OF rr'] by simp
  note hl = height_node_rep [OF rl']
  note hrl = height_node_rep [OF rrl]
  note hrr = height_node_rep [OF rrr]
  have nl: "\<not> ht l > ht (Fork rl y ky rr) + 1" using h by linarith
  show ?thesis
  proof (cases "ht rr \<ge> ht rl")
    case True
    then have rb: "rebal (Fork l x k (Fork rl y ky rr)) = Fork (Fork l x k rl) y ky rr"
      using h by (simp add: rebal.simps)
    have body: "rebalance_body (Some x) s = Some (left_rotate (Some x) (note_rotation (LeftRotate (Some x)) s))"
      using n ny hl hr hrl hrr h nl True by (simp add: rebalance_body_def)
    have "wf_tree (note_rotation (LeftRotate (Some x)) s) (plug (Fork l x k (Fork rl y ky rr)) fs)"
      using wf by simp
    from left_rotate_effect [OF this] show ?thesis
      unfolding body rb by auto
  next
    case False
    then have "0 \<le> ht rl" using ht_levels [of rr] by linarith
    then obtain b z kz c where rl: "rl = Fork b z kz c" by (cases rl) auto
    have rb: "rebal (Fork l x k (Fork rl y ky rr)) = Fork (Fork l x k b) z kz (Fork c y ky rr)"
      using h False unfolding rl by (simp add: rebal.simps)
    have body: "rebalance_body (Some x) s =
        bindO (Some (right_rotate (Some y) (note_rotation (RightRotate (Some y)) s)))
          (\<lambda>s1. Some (left_rotate (Some x) (note_rotation (LeftRotate (Some x)) s1)))"
      using n ny hl hr hrl hrr h nl False by (simp add: rebalance_body_def)
    have "wf_tree (note_rotation (RightRotate (Some y)) s)
            (plug (Fork (Fork b z kz c) y ky rr) (RightOf l x k # fs))"
      using wf unfolding rl by simp
    from right_rotate_effect [OF this] obtain s1 where
      s1: "right_rotate (Some y) (note_rotation (RightRotate (Some y)) s) = Inr s1"
          "wf_tree s1 (plug (Fork b z kz (Fork c y ky rr)) (RightOf l x k # fs))"
          "next_addr s1 = next_addr s"
      by auto
    have "wf_tree (note_rotation (LeftRotate (Some x)) s1)
            (plug (Fork l x k (Fork b z kz (Fork c y ky rr))) fs)"
      using s1(2) by simp
    from left_rotate_effect [OF this] show ?thesis
      unfolding body rb using s1(1,3) by auto
  qed
qed

lemma rebalance_body_balanced:
  assumes wf: "wf_tree s (plug (Fork l x k r) fs)" and b: "avl (Fork l x k r)"
  shows "rebalance_body (Some x) s = Some (Inr s)"
proof -
  note w = wf [unfolded wf_tree_plug]
  from w have n: "nodes s x = Some \<lparr>m_key = k, m_left = root_ptr l, m_right = root_ptr r, m_parent = top fs\<rparr>"
    and rl: "rep (nodes s) (Some x) l" and rr: "rep (nodes s) (Some x) r"
    by simp_all
  note hl = height_node_rep [OF rl]
  note hr = height_node_rep [OF rr]
  from b have "\<not> ht l > ht r + 1" "\<not> ht r > ht l + 1" by auto
  then show ?thesis using n hl hr by (simp add: rebalance_body_def)
qed

lemma rebalance_step_balanced:
  assumes wf: "wf_tree s (plug t fs)" and b: "avl t" and ne: "t \<noteq> Tip"
  shows "rebalance (root_ptr t) s = rebalance (top fs) s"
proof -
  from ne obtain l x k r where t: "t = Fork l x k r" by (cases t) auto
  from wf [unfolded wf_tree_plug t]
  have n: "nodes s x = Some \<lparr>m_key = k, m_left = root_ptr l, m_right = root_ptr r, m_parent = top fs\<rparr>"
    by simp
  show ?thesis
    unfolding t using rebalance_body_balanced [OF wf [unfolded t] b [unfolded t]] n
    by (subst rebalance.simps) simp
qed

lemma rebalance_slot:
  assumes wf: "wf_tree s (plug t fs)" and na: "near_avl t"
  shows "\<exists>s'. wf_tree s' (plug (rebal t) fs) \<and> next_addr s' = next_addr s \<and>
           rebalance (root_ptr t) s = rebalance (top fs) s'"
  using na
proof (cases rule: near_avl_cases)
  case (left ll y ky lr x k r)
  have h: "ht (Fork ll y ky lr) > ht r + 1" using left(4) by linarith
  from rebalance_body_left [OF wf [unfolded left(1)] h] obtain s1 where
    s1: "rebalance_body (Some x) s = Some (Inr s1)"
        "wf_tree s1 (plug (rebal t) fs)" "next_addr s1 = next_addr s"
    unfolding left(1) by blast
  have "\<exists>A q kq B C. rebal t = Fork A q kq (Fork B x k C)"
    unfolding left(1) using h ht_levels [of ll] ht_levels [of r] by (cases lr) (auto simp: rebal.simps)
  then obtain A q kq B C where rb: "rebal t = Fork A q kq (Fork B x k C)" by blast
  from s1(2) [unfolded rb wf_tree_plug]
  have nx: "nodes s1 x = Some \<lparr>m_key = k, m_left = root_ptr B, m_right = root_ptr C, m_parent = Some q\<rparr>"
    by simp
  have "rebalance (Some x) s = rebalance (Some q) s1"
    using s1(1) nx by (subst rebalance.simps) simp
  also have "\<dots> = rebalance (top fs) s1"
    using rebalance_step_balanced [OF s1(2) avl_rebal [OF na]] rb by simp
  finally show ?thesis using s1(2,3) left(1) by auto
next
  case (right l x k rl y ky rr)
  have h: "ht (Fork rl y ky rr) > ht l + 1" using right(4) by linarith
  from rebalance_body_right [OF wf [unfolded right(1)] h] obtain s1 where
    s1: "rebalance_body (Some x) s = Some (Inr s1)"
        "wf_tree s1 (plug (rebal t) fs)" "next_addr s1 = next_addr s"
    unfolding right(1) by blast
  have "\<exists>A q kq B C. rebal t = Fork (Fork A x k B) q kq C"
    unfolding right(1) using h ht_levels [of rr] ht_levels [of l] by (cases rl) (auto simp: rebal.simps)
  then obtain A q kq B C where rb: "rebal t = Fork (Fork A x k B) q kq C" by blast
  from s1(2) [unfolded rb wf_tree_plug]
  have nx: "nodes s1 x = Some \<lparr>m_key = k, m_left = root_ptr A, m_right = root_ptr B, m_parent = Some q\<rparr>"
    by simp
  have "rebalance (Some x) s = rebalance (Some q) s1"
    using s1(1) nx by (subst rebalance.simps) simp
  also have "\<dots> = rebalance (top fs) s1"
    using rebalance_step_balanced [OF s1(2) avl_rebal [OF na]] rb by simp
  finally show ?thesis using s1(2,3) right(1) by auto
next
  case balanced
  from na have "t \<noteq> Tip" by auto
  from rebalance_step_balanced [OF wf balanced this] show ?thesis
    using wf balanced by (auto simp: rebal_balanced)
qed

lemma top_plug1: "root_ptr (plug t [f]) = top (f # fs)"
  by (cases f) auto

lemma rebalance_up:
  "wf_tree s (plug t fs) \<Longrightarrow> up_ok t fs \<Longrightarrow>
   \<exists>s'. rebalance (root_ptr t) s = Some (Inr s') \<and> wf_tree s' (rebal_up t fs) \<and>
        next_addr s' = next_addr s"
proof (induction t fs arbitrary: s rule: rebal_up.induct)
  case (1 t)
  then have na: "near_avl t" by simp
  from rebalance_slot [OF 1(1) na] obtain s' where
    s': "wf_tree s' (plug (rebal t) [])" "next_addr s' = next_addr s"
        "rebalance (root_ptr t) s = rebalance (top []) s'"
    by auto
  have "rebalance None s' = Some (Inr s')" by (subst rebalance.simps) simp
  then show ?case using s' by simp
next
  case (2 t f fs)
  then have na: "near_avl t" and up: "up_ok (plug (rebal t) [f]) fs" by simp_all
  from rebalance_slot [OF 2(2) na] obtain s1 where
    s1: "wf_tree s1 (plug (rebal t) (f # fs))" "next_addr s1 = next_addr s"
        "rebalance (root_ptr t) s = rebalance (top (f # fs)) s1"
    by blast
  have w: "wf_tree s1 (plug (plug (rebal t) [f]) fs)"
    using s1(1) by (cases f) simp_all
  from 2(1) [OF w up] obtain s' where
    "rebalance (root_ptr (plug (rebal t) [f])) s1 = Some (Inr s')"
    "wf_tree s' (rebal_up (plug (rebal t) [f]) fs)" "next_addr s' = next_addr s1"
    by blast
  then show ?case using s1(2,3) top_plug1 [of "rebal t" f fs] by simp
qed

lemma avl_insert_wf:
  assumes wf: "wf_tree s t" and b: "avl t"
  shows "\<exists>s' t'. avl_insert x s = Some (Inr s') \<and> wf_tree s' t' \<and> avl t' \<and>
           inorder t' = inorder (ins (next_addr s) x t) \<and> next_addr s' = Suc (next_addr s)"
proof -
  define n where "n = next_addr s"
  define fs where "fs = descend x t []"
  define leaf where "leaf = Fork Tip n x Tip"
  from priv_iter_insert_wf [OF wf, of x] obtain s1 where
    s1: "priv_iter_insert x s = Some (Inr (Some n, s1))" "wf_tree s1 (plug leaf fs)"
        "next_addr s1 = Suc n"
    unfolding n_def fs_def leaf_def by blast
  have l: "avl leaf" "near_avl leaf" by (simp_all add: leaf_def)
  have "avl (plug Tip fs)" unfolding fs_def using b by (simp add: plug_Tip_descend)
  moreover have "ht Tip \<le> ht (rebal leaf)" "ht (rebal leaf) \<le> ht Tip + 1"
    using l(1) by (simp_all add: rebal_balanced) (simp_all add: leaf_def)
  ultimately have u: "up_ok leaf fs" "avl (rebal_up leaf fs)"
    using rebal_up_avl [OF l(2)] by blast+
  from rebalance_up [OF s1(2) u(1)] obtain s' where
    s': "rebalance (root_ptr leaf) s1 = Some (Inr s')" "wf_tree s' (rebal_up leaf fs)"
        "next_addr s' = next_addr s1"
    by blast
  have "avl_insert x s = Some (Inr s')"
    using s1(1) s'(1) by (simp add: avl_insert_def leaf_def)
  moreover have "inorder (rebal_up leaf fs) = inorder (ins n x t)"
    unfolding leaf_def fs_def by (simp add: inorder_rebal_up plug_descend)
  ultimately show ?thesis using s'(2,3) s1(3) u(2) unfolding n_def
    by (intro exI [of _ s'] exI [of _ "rebal_up leaf fs"]) simp
qed

lemma avl_inserts_wf:
  "wf_tree s t \<Longrightarrow> avl t \<Longrightarrow> bst_weak t \<Longrightarrow>
   \<exists>s' t'. avl_inserts es s = Some (Inr s') \<and> wf_tree s' t' \<and> avl t' \<and> bst_weak t' \<and>
           mset (inorder t') = mset (inorder t) + mset es"
proof (induction es arbitrary: s t)
  case Nil
  then show ?case by auto
next
  case (Cons e es)
  from avl_insert_wf [OF Cons.prems(1,2), of e] obtain s1 t1 where
    s1: "avl_insert e s = Some (Inr s1)" "wf_tree s1 t1" "avl t1"
        "inorder t1 = inorder (ins (next_addr s) e t)"
    by blast
  have w: "bst_weak t1"
    using bst_weak_ins [OF Cons.prems(3), of "next_addr s" e] s1(4) by (simp add: bst_weak_sorted)
  have m: "mset (inorder t1) = add_mset e (mset (inorder t))"
    using s1(4) by (simp add: mset_inorder_ins)
  from Cons.IH [OF s1(2,3) w] obtain s' t' where
    "avl_inserts es s1 = Some (Inr s')" "wf_tree s' t'" "avl t'" "bst_weak t'"
    "mset (inorder t') = mset (inorder t1) + mset es"
    by blast
  then show ?case using s1(1) m by auto
qed

lemma ins_Fork: "\<exists>l a k r. ins n x t = Fork l a k r"
  by (cases t) auto

lemma priv_rec_insert_rep:
  "rep (nodes s) par t \<Longrightarrow> distinct (addrs t) \<Longrightarrow> (\<forall>a\<in>set (addrs t). a < next_addr s) \<Longrightarrow>
   \<exists>s'. priv_rec_insert (root_ptr t) x s = Some (Inr (root_ptr (ins (next_addr s) x t), s')) \<and>
        rep (nodes s') (if t = Tip then None else par) (ins (next_addr s) x t) \<and>
        next_addr s' = Suc (next_addr s) \<and> m_root s' = m_root s \<and>
        (\<forall>a. a \<notin> set (addrs t) \<and> a \<noteq> next_addr s \<longrightarrow> nodes s' a = nodes s a)"
proof (induction t arbitrary: par)
  case Tip
  show ?case
    by (subst priv_rec_insert.simps) (simp add: make_shared_def)
next
  case (Fork l a k r)
  define n where "n = next_addr s"
  from Fork.prems have na: "nodes s a = Some \<lparr>m_key = k, m_left = root_ptr l, m_right = root_ptr r, m_parent = par\<rparr>"
    and rl: "rep (nodes s) (Some a) l" and rr: "rep (nodes s) (Some a) r"
    and dl: "distinct (addrs l)" and dr: "distinct (addrs r)"
    and al: "a \<notin> set (addrs l)" and ar: "a \<notin> set (addrs r)"
    and disj: "set (addrs l) \<inter> set (addrs r) = {}"
    and bl: "\<forall>b\<in>set (addrs l). b < next_addr s" and br: "\<forall>b\<in>set (addrs r). b < next_addr s"
    and an: "a \<noteq> n"
    unfolding n_def by auto
  have nl: "n \<notin> set (addrs l)" and nr: "n \<notin> set (addrs r)"
    using bl br unfolding n_def by auto
  show ?case
  proof (cases "x < k")
    case True
    from Fork.IH(1) [OF rl dl bl] obtain s1 where
      s1: "priv_rec_insert (root_ptr l) x s = Some (Inr (root_ptr (ins n x l), s1))"
          "rep (nodes s1) (if l = Tip then None else Some a) (ins n x l)"
          "next_addr s1 = Suc n" "m_root s1 = m_root s"
          "\<forall>b. b \<notin> set (addrs l) \<and> b \<noteq> n \<longrightarrow> nodes s1 b = nodes s b"
      unfolding n_def by blast
    obtain l1 a1 k1 r1 where l': "ins n x l = Fork l1 a1 k1 r1"
      using ins_Fork by blast
    have a1: "a1 \<in> Set.insert n (set (addrs l))"
      using set_addrs_ins [of n x l] unfolding l' by auto
    have d': "distinct (addrs (Fork l1 a1 k1 r1))"
      using distinct_addrs_ins [OF nl dl, of x] unfolding l' .
    have a1a: "a1 \<noteq> a" using a1 al an by auto
    have sub: "set (addrs l1) \<union> set (addrs r1) \<subseteq> Set.insert n (set (addrs l))"
      using set_addrs_ins [of n x l] unfolding l' by auto
    have a_l1: "a \<notin> set (addrs l1)" "a \<notin> set (addrs r1)" using sub al an by auto
    have a1_r: "a1 \<notin> set (addrs r)" using a1 nr disj by auto
    have na1: "nodes s1 a = nodes s a" using s1(5) al an by simp
    have rr1: "rep (nodes s1) (Some a) r"
      using rr s1(5) nr disj rep_cong [of r "nodes s1" "nodes s" "Some a"] by auto
    from s1(2) [unfolded l'] obtain pp where
      n1: "nodes s1 a1 = Some \<lparr>m_key = k1, m_left = root_ptr l1, m_right = root_ptr r1, m_parent = pp\<rparr>"
      and r1l: "rep (nodes s1) (Some a1) l1" and r1r: "rep (nodes s1) (Some a1) r1"
      by auto
    define s3 where "s3 = s1\<lparr>nodes := (nodes s1)
        (a \<mapsto> \<lparr>m_key = k, m_left = Some a1, m_right = root_ptr r, m_parent = par\<rparr>,
         a1 \<mapsto> \<lparr>m_key = k1, m_left = root_ptr l1, m_right = root_ptr r1, m_parent = Some a\<rparr>)\<rparr>"
    have run: "priv_rec_insert (Some a) x s = Some (Inr (Some a, s3))"
      using True na s1(1) na1 n1 a1a unfolding l' s3_def
      by (subst priv_rec_insert.simps) (simp add: field_defs)
    have rep3: "rep (nodes s3) par (Fork (Fork l1 a1 k1 r1) a k r)"
      using r1l r1r rr1 d' a_l1 a1_r ar a1a unfolding s3_def by simp
    have frame: "\<forall>b. b \<notin> set (addrs (Fork l a k r)) \<and> b \<noteq> n \<longrightarrow> nodes s3 b = nodes s b"
      using s1(5) a1 unfolding s3_def by auto
    have fields: "next_addr s3 = Suc n" "m_root s3 = m_root s"
      using s1(3,4) by (simp_all add: s3_def)
    show ?thesis
      using True run rep3 frame fields unfolding n_def [symmetric]
      by (intro exI [of _ s3]) (simp add: l')
  next
    case False
    from Fork.IH(2) [OF rr dr br] obtain s1 where
      s1: "priv_rec_insert (root_ptr r) x s = Some (Inr (root_ptr (ins n x r), s1))"
          "rep (nodes s1) (if r = Tip then None else Some a) (ins n x r)"
          "next_addr s1 = Suc n" "m_root s1 = m_root s"
          "\<forall>b. b \<notin> set (addrs r) \<and> b \<noteq> n \<longrightarrow> nodes s1 b = nodes s b"
      unfolding n_def by blast
    obtain l1 a1 k1 r1 where r': "ins n x r = Fork l1 a1 k1 r1"
      using ins_Fork by blast
    have a1: "a1 \<in> Set.insert n (set (addrs r))"
      using set_addrs_ins [of n x r] unfolding r' by auto
    have d': "distinct (addrs (Fork l1 a1 k1 r1))"
      using distinct_addrs_ins [OF nr dr, of x] unfolding r' .
    have a1a: "a1 \<noteq> a" using a1 ar an by auto
    have sub: "set (addrs l1) \<union> set (addrs r1) \<subseteq> Set.insert n (set (addrs r))"
      using set_addrs_ins [of n x r] unfolding r' by auto
    have a_l1: "a \<notin> set (addrs l1)" "a \<notin> set (addrs r1)" using sub ar an by auto
    have a1_l: "a1 \<notin> set (addrs l)" using a1 nl disj by auto
    have na1: "nodes s1 a = nodes s a" using s1(5) ar an by simp
    have rl1: "rep (nodes s1) (Some a) l"
      using rl s1(5) nl disj rep_cong [of l "nodes s1" "nodes s" "Some a"] by auto
    from s1(2) [unfolded r'] obtain pp where
      n1: "nodes s1 a1 = Some \<lparr>m_key = k1, m_left = root_ptr l1, m_right = root_ptr r1, m_parent = pp\<rparr>"
      and r1l: "rep (nodes s1) (Some a1) l1" and r1r: "rep (nodes s1) (Some a1) r1"
      by auto
    define s3 where "s3 = s1\<lparr>nodes := (nodes s1)
        (a \<mapsto> \<lparr>m_key = k, m_left = root_ptr l, m_right = Some a1, m_parent = par\<rparr>,
         a1 \<mapsto> \<lparr>m_key = k1, m_left = root_ptr l1, m_right = root_ptr r1, m_parent = Some a\<rparr>)\<rparr>"
    have run: "priv_rec_insert (Some a) x s = Some (Inr (Some a, s3))"
      using False na s1(1) na1 n1 a1a unfolding r' s3_def
      by (subst priv_rec_insert.simps) (simp add: field_defs)
    have rep3: "rep (nodes s3) par (Fork l a k (Fork l1 a1 k1 r1))"
      using r1l r1r rl1 d' a_l1 a1_l al a1a unfolding s3_def by simp
    have frame: "\<forall>b. b \<notin> set (addrs (Fork l a k r)) \<and> b \<noteq> n \<longrightarrow> nodes s3 b = nodes s b"
      using s1(5) a1 unfolding s3_def by auto
    have fields: "next_addr s3 = Suc n" "m_root s3 = m_root s"
      using s1(3,4) by (simp_all add: s3_def)
    show ?thesis
      using False run rep3 frame fields unfolding n_def [symmetric]
      by (intro exI [of _ s3]) (simp add: r')
  qed
qed


lemma bst_insert_wf:
  assumes wf: "wf_tree s t"
  shows "\<exists>s'. bst_insert x s = Some (Inr s') \<and> wf_tree s' (ins (next_addr s) x t) \<and>
           next_addr s' = Suc (next_addr s)"
proof -
  from wf have r: "rep (nodes s) None t" and d: "distinct (addrs t)"
    and b: "\<forall>a\<in>set (addrs t). a < next_addr s" and m: "m_root s = root_ptr t"
    by (simp_all add: wf_tree_def list_all_iff)
  from priv_rec_insert_rep [OF r d b, of x] obtain s1 where
    s1: "priv_rec_insert (root_ptr t) x s = Some (Inr (root_ptr (ins (next_addr s) x t), s1))"
        "rep (nodes s1) None (ins (next_addr s) x t)" "next_addr s1 = Suc (next_addr s)"
    by (auto split: if_splits)
  have fresh: "next_addr s \<notin> set (addrs t)" using b by auto
  have "wf_tree (s1\<lparr>m_root := root_ptr (ins (next_addr s) x t)\<rparr>) (ins (next_addr s) x t)"
    using s1(2,3) b distinct_addrs_ins [OF fresh d, of x]
    by (auto simp: wf_tree_def list_all_iff set_addrs_ins)
  then show ?thesis using s1(1,3) m by (simp add: bst_insert_def)
qed

lemma iter_insert_wf:
  assumes wf: "wf_tree s t"
  shows "\<exists>s'. iter_insert x s = Some (Inr s') \<and> wf_tree s' (ins (next_addr s) x t) \<and>
           next_addr s' = Suc (next_addr s)"
  using priv_iter_insert_wf [OF wf, of x] plug_descend [of "next_addr s" x t "[]"]
  by (auto simp: iter_insert_def)

lemma bst_inserts_wf:
  "wf_tree s t \<Longrightarrow> bst_strict t \<Longrightarrow>
   \<exists>s' t'. bst_inserts ops s = Some (Inr s') \<and> wf_tree s' t' \<and> bst_strict t' \<and>
           mset (inorder t') = mset (inorder t) + mset (map inserted_key ops)"
proof (induction ops arbitrary: s t)
  case Nil
  then show ?case by auto
next
  case (Cons op ops)
  define x where "x = inserted_key op"
  have x: "op = IterInsert x \<or> op = RecInsert x" unfolding x_def by (cases op) auto
  have "\<exists>s1. bst_inserts (op # ops) s = bst_inserts ops s1 \<and> wf_tree s1 (ins (next_addr s) x t)"
    using x iter_insert_wf [OF Cons.prems(1), of x] bst_insert_wf [OF Cons.prems(1), of x]
    by auto
  then obtain s1 where
    s1: "bst_inserts (op # ops) s = bst_inserts ops s1" "wf_tree s1 (ins (next_addr s) x t)"
    by blast
  from Cons.IH [OF s1(2) bst_strict_ins [OF Cons.prems(2)]] obtain s' t' where
    "bst_inserts ops s1 = Some (Inr s')" "wf_tree s' t'" "bst_strict t'"
    "mset (inorder t') = mset (inorder (ins (next_addr s) x t)) + mset (map inserted_key ops)"
    by blast
  then show ?case using s1(1) by (auto simp: mset_inorder_ins x_def)
qed

lemma rep_unique:
  "rep h par t \<Longrightarrow> rep h par' t' \<Longrightarrow> root_ptr t = root_ptr t' \<Longrightarrow> t = t'"
proof (induction t arbitrary: t' par par')
  case Tip
  then show ?case by (cases t') auto
next
  case (Fork l a k r)
  then obtain l' k' r' where t': "t' = Fork l' a k' r'" by (cases t') auto
  with Fork.prems have "k = k'" "root_ptr l = root_ptr l'" "root_ptr r = root_ptr r'"
    "rep h (Some a) l" "rep h (Some a) l'" "rep h (Some a) r" "rep h (Some a) r'"
    by auto
  then show ?case using Fork.IH t' by blast
qed

lemma wf_tree_unique: "wf_tree s t \<Longrightarrow> wf_tree s t' \<Longrightarrow> t = t'"
  using rep_unique [of "nodes s" None t None t'] by (simp add: wf_tree_def)

lemma in_order_visit:
  "wf_tree s t \<Longrightarrow> in_order_traversal s visit [] = Some (Inr (inorder t))"
proof -
  assume "wf_tree s t"
  then have r: "rep (nodes s) None t" and m: "m_root s = root_ptr t"
    by (simp_all add: wf_tree_def)
  have "fold visit ks acc = acc @ ks" for ks acc :: "'a list"
    by (induction ks arbitrary: acc) (simp_all add: visit_def)
  then show ?thesis using in_order_rep [OF r, of visit "[]"] by (simp add: in_order_traversal_def m)
qed

lemma avl_node_heights:
  assumes wf: "wf_tree s t" and b: "avl t" and a: "a \<in> set (addrs t)"
  shows "\<exists>n. nodes s a = Some n \<and>
           (\<exists>hl hr. height_node s (m_left n) = Some (Inr hl) \<and>
                    height_node s (m_right n) = Some (Inr hr) \<and> \<bar>hl - hr\<bar> \<le> 1)"
proof -
  from addr_focus [OF a] obtain l k r fs where t: "t = plug (Fork l a k r) fs" by blast
  note w = wf [unfolded t wf_tree_plug]
  from w have n: "nodes s a = Some \<lparr>m_key = k, m_left = root_ptr l, m_right = root_ptr r, m_parent = top fs\<rparr>"
    and rl: "rep (nodes s) (Some a) l" and rr: "rep (nodes s) (Some a) r"
    by simp_all
  from b have "avl (Fork l a k r)" unfolding t by (rule avl_plug)
  then have "\<bar>ht l - ht r\<bar> \<le> 1" by simp
  then show ?thesis
    using n height_node_rep [OF rl] height_node_rep [OF rr] by simp
qed

lemma search_node_weak:
  "rep (nodes s) par t \<Longrightarrow> bst_weak t \<Longrightarrow>
   \<exists>p. search_node s (root_ptr t) x = Some (Inr p) \<and> (p \<noteq> None) = (x \<in> set (inorder t))"
proof (induction t arbitrary: par)
  case Tip
  then show ?case by (subst search_node.simps) simp
next
  case (Fork l a k r)
  from Fork.prems have n: "nodes s a = Some \<lparr>m_key = k, m_left = root_ptr l, m_right = root_ptr r, m_parent = par\<rparr>"
    and rl: "rep (nodes s) (Some a) l" and rr: "rep (nodes s) (Some a) r"
    and wl: "bst_weak l" and wr: "bst_weak r"
    and le: "\<forall>y\<in>set (inorder l). y \<le> k" and ge: "\<forall>y\<in>set (inorder r). k \<le> y"
    by (simp_all add: list_all_iff)
  from Fork.IH(1) [OF rl wl] obtain pl where
    pl: "search_node s (root_ptr l) x = Some (Inr pl)" "(pl \<noteq> None) = (x \<in> set (inorder l))"
    by blast
  from Fork.IH(2) [OF rr wr] obtain pr where
    pr: "search_node s (root_ptr r) x = Some (Inr pr)" "(pr \<noteq> None) = (x \<in> set (inorder r))"
    by blast
  have "x < k \<Longrightarrow> x \<notin> set (inorder r)" using ge by auto
  moreover have "\<not> x < k \<Longrightarrow> x \<noteq> k \<Longrightarrow> x \<notin> set (inorder l)" using le by auto
  ultimately show ?case
    using n pl pr by (subst search_node.simps) auto
qed

section \<open>Properties of single operations\<close>

text \<open>
  C9, as amended. Let \<open>x\<close> be a node of a well-formed tree with right child \<open>y\<close>; the
  tree is then \<open>plug (Fork l x k (Fork b y ky g)) fs\<close>, where \<open>b\<close> is the left subtree of
  \<open>y\<close> and \<open>fs\<close> the path from \<open>x\<close> to the root (by \<open>addr_focus\<close> every node is of this
  form). \<open>left_rotate\<close> at \<open>x\<close> returns normally, and the tree it leaves is
  \<open>plug (Fork (Fork l x k b) y ky g) fs\<close>: \<open>b\<close> has become the right subtree of \<open>x\<close>, \<open>y\<close>
  stands in the slot \<open>x\<close> had (the child slot of the parent of \<open>x\<close>, or the root), and \<open>x\<close>
  is the left child of \<open>y\<close>. The parent back-references that change are those of \<open>x\<close>, of
  \<open>y\<close> and of the root of \<open>b\<close>, and no other: three when \<open>b\<close> is present, two when it is
  absent. \<open>right_rotate\<close> is the mirror image.
\<close>

theorem rotation_effect:
  "(wf_tree s (plug (Fork l x k (Fork b y ky g)) fs) \<longrightarrow>
      (\<exists>s'. left_rotate (Some x) s = Inr s' \<and>
            wf_tree s' (plug (Fork (Fork l x k b) y ky g) fs) \<and>
            parent_changed s s' = {x, y} \<union> set_option (root_ptr b) \<and>
            card (parent_changed s s') = (if b = Tip then 2 else 3))) \<and>
   (wf_tree s (plug (Fork (Fork g y ky b) x k r) fs) \<longrightarrow>
      (\<exists>s'. right_rotate (Some x) s = Inr s' \<and>
            wf_tree s' (plug (Fork g y ky (Fork b x k r)) fs) \<and>
            parent_changed s s' = {x, y} \<union> set_option (root_ptr b) \<and>
            card (parent_changed s s') = (if b = Tip then 2 else 3)))"
proof (intro conjI impI)
  assume wf: "wf_tree s (plug (Fork l x k (Fork b y ky g)) fs)"
  then have d: "x \<noteq> y" "root_ptr b \<noteq> Some x" "root_ptr b \<noteq> Some y"
    by (auto simp: wf_tree_plug)
  from left_rotate_effect [OF wf] obtain s' where
    s': "left_rotate (Some x) s = Inr s'"
        "wf_tree s' (plug (Fork (Fork l x k b) y ky g) fs)"
        "parent_changed s s' = {x, y} \<union> set_option (root_ptr b)"
    by blast
  have "card ({x, y} \<union> set_option (root_ptr b)) = (if b = Tip then 2 else 3)"
    using d by (cases b) auto
  with s' show "\<exists>s'. left_rotate (Some x) s = Inr s' \<and>
            wf_tree s' (plug (Fork (Fork l x k b) y ky g) fs) \<and>
            parent_changed s s' = {x, y} \<union> set_option (root_ptr b) \<and>
            card (parent_changed s s') = (if b = Tip then 2 else 3)"
    by auto
next
  assume wf: "wf_tree s (plug (Fork (Fork g y ky b) x k r) fs)"
  then have d: "x \<noteq> y" "root_ptr b \<noteq> Some x" "root_ptr b \<noteq> Some y"
    by (auto simp: wf_tree_plug)
  from right_rotate_effect [OF wf] obtain s' where
    s': "right_rotate (Some x) s = Inr s'"
        "wf_tree s' (plug (Fork g y ky (Fork b x k r)) fs)"
        "parent_changed s s' = {x, y} \<union> set_option (root_ptr b)"
    by blast
  have "card ({x, y} \<union> set_option (root_ptr b)) = (if b = Tip then 2 else 3)"
    using d by (cases b) auto
  with s' show "\<exists>s'. right_rotate (Some x) s = Inr s' \<and>
            wf_tree s' (plug (Fork g y ky (Fork b x k r)) fs) \<and>
            parent_changed s s' = {x, y} \<union> set_option (root_ptr b) \<and>
            card (parent_changed s s') = (if b = Tip then 2 else 3)"
    by auto
qed

text \<open>
  The theorem at \<open>zig_right\<close> and \<open>zig_left\<close>, rotated at their roots: the subtree \<open>b\<close> is
  the node of key 20, and three parent back-references change.
\<close>

theorem rotation_effect_witness:
  "wf_tree zig_right (plug (Fork Tip 0 10 (Fork (Fork Tip 2 20 Tip) 1 30 Tip)) []) \<and>
   \<not> isl (left_rotate (Some 0) zig_right) \<and>
   wf_tree (projr (left_rotate (Some 0) zig_right))
     (plug (Fork (Fork Tip 0 10 (Fork Tip 2 20 Tip)) 1 30 Tip) []) \<and>
   card (parent_changed zig_right (projr (left_rotate (Some 0) zig_right))) = 3 \<and>
   wf_tree zig_left (plug (Fork (Fork Tip 1 10 (Fork Tip 2 20 Tip)) 0 30 Tip) []) \<and>
   \<not> isl (right_rotate (Some 0) zig_left) \<and>
   wf_tree (projr (right_rotate (Some 0) zig_left))
     (plug (Fork Tip 1 10 (Fork (Fork Tip 2 20 Tip) 0 30 Tip)) []) \<and>
   card (parent_changed zig_left (projr (right_rotate (Some 0) zig_left))) = 3"
proof -
  have wr: "wf_tree zig_right (plug (Fork Tip 0 10 (Fork (Fork Tip 2 20 Tip) 1 30 Tip)) [])"
    and wl: "wf_tree zig_left (plug (Fork (Fork Tip 1 10 (Fork Tip 2 20 Tip)) 0 30 Tip) [])"
    using example_trees_wf by simp_all
  have "\<exists>s'. left_rotate (Some 0) zig_right = Inr s' \<and>
          wf_tree s' (plug (Fork (Fork Tip 0 10 (Fork Tip 2 20 Tip)) 1 30 Tip) []) \<and>
          parent_changed zig_right s' = {0, 1} \<union> set_option (root_ptr (Fork Tip 2 (20::int) Tip)) \<and>
          card (parent_changed zig_right s') = (if Fork Tip 2 (20::int) Tip = Tip then 2 else 3)"
    using rotation_effect [where s = zig_right and l = Tip and x = 0 and k = 10
        and b = "Fork Tip 2 20 Tip" and y = 1 and ky = 30 and g = Tip and fs = "[]"] wr
    by blast
  moreover have "\<exists>s'. right_rotate (Some 0) zig_left = Inr s' \<and>
          wf_tree s' (plug (Fork Tip 1 10 (Fork (Fork Tip 2 20 Tip) 0 30 Tip)) []) \<and>
          parent_changed zig_left s' = {0, 1} \<union> set_option (root_ptr (Fork Tip 2 (20::int) Tip)) \<and>
          card (parent_changed zig_left s') = (if Fork Tip 2 (20::int) Tip = Tip then 2 else 3)"
    using rotation_effect [where s = zig_left and r = Tip and x = 0 and k = 30
        and b = "Fork Tip 2 20 Tip" and y = 1 and ky = 10 and g = Tip and fs = "[]"] wl
    by blast
  ultimately show ?thesis using wr wl by auto
qed

text \<open>
  C9 as the specification states it (exactly three parent back-references change, no
  fewer) fails at \<open>chain3\<close>: the right child of the root has no left subtree, and
  \<open>left_rotate\<close> at the root changes two parent back-references.
\<close>

theorem rotation_two_parents_counterexample:
  "wf_tree chain3 (Fork Tip 0 10 (Fork Tip 1 20 (Fork Tip 2 30 Tip))) \<and>
   \<not> isl (left_rotate (Some 0) chain3) \<and>
   card (parent_changed chain3 (projr (left_rotate (Some 0) chain3))) = 2"
proof -
  have wf: "wf_tree chain3 (plug (Fork Tip 0 10 (Fork Tip 1 20 (Fork Tip 2 30 Tip))) [])"
    using example_trees_wf(2) by simp
  obtain s' where
    "left_rotate (Some 0) chain3 = Inr s'"
    "parent_changed chain3 s' = {0, 1} \<union> set_option (root_ptr (Tip :: int shape))"
    using left_rotate_effect [OF wf] by blast
  then show ?thesis using example_trees_wf(2) by simp
qed

text \<open>
  C10. For a node \<open>x\<close> of the store that has no right child, \<open>left_rotate\<close> returns
  normally and leaves the whole object as it was; symmetrically for \<open>right_rotate\<close> and a
  node with no left child.
\<close>

theorem rotate_without_child_is_identity:
  "(nodes s a = Some n \<and> m_right n = None \<longrightarrow> left_rotate (Some a) s = Inr s) \<and>
   (nodes s a = Some n \<and> m_left n = None \<longrightarrow> right_rotate (Some a) s = Inr s)"
  by (simp add: left_rotate_def right_rotate_def field_defs)

theorem rotate_without_child_is_identity_witness:
  "nodes one_node 0 = Some \<lparr>m_key = 5, m_left = None, m_right = None, m_parent = None\<rparr> \<and>
   left_rotate (Some 0) one_node = Inr one_node \<and>
   right_rotate (Some 0) one_node = Inr one_node"
  using rotate_without_child_is_identity
          [of one_node 0 "\<lparr>m_key = 5, m_left = None, m_right = None, m_parent = None\<rparr>"]
  by (simp add: one_node_def mk_tree_def)

text \<open>
  C3. The layout \<open>[5, absent, 8, 1]\<close> supplies a left child for the absent left child of
  the root. The constructor does not fail with an error of its own there: it evaluates
  \<open>node -> m_left\<close> for the null \<open>node\<close> it took from the queue.
\<close>

theorem bfs_absent_entry_null_deref:
  "from_bfs [Some (5::int), None, Some 8, Some 1] = Inl NullDeref"
proof -
  have "case from_bfs [Some (5::int), None, Some 8, Some 1] of
          Inl e \<Rightarrow> e = NullDeref | Inr s \<Rightarrow> False"
    by code_simp
  then show ?thesis by (simp split: sum.splits)
qed

text \<open>
  C4. In the tree \<open>one_node\<close> the root is the only node and holds the key 5. \<open>remove 5\<close>
  calls \<open>transplant\<close> with the root and a null \<open>v\<close>; the branch for the root assigns
  \<open>v -> m_parent\<close> without testing \<open>v\<close>, so the removal runs into a null dereference.
\<close>

theorem remove_only_node_null_deref:
  "wf_tree one_node (Fork Tip 0 5 Tip) \<and>
   transplant (Some 0) None one_node = Inl NullDeref \<and>
   remove 5 one_node = Some (Undefined NullDeref)"
proof -
  have "case transplant (Some 0) None one_node of Inl e \<Rightarrow> e = NullDeref | Inr s \<Rightarrow> False"
    by code_simp
  moreover have "case remove 5 one_node of Some (Undefined e) \<Rightarrow> e = NullDeref | _ \<Rightarrow> False"
    by code_simp
  ultimately show ?thesis
    using example_trees_wf(1) by (simp split: sum.splits option.splits outcome.splits)
qed

text \<open>
  C7. Inserting 10, 20, 30 into an empty AVL tree returns normally; the rotation log
  holds one entry, a left rotation at address 0, the node of key 10; and the tree has
  the root 20 with the left child 10 and the right child 30.
\<close>

theorem avl_insert_10_20_30:
  "(case avl_inserts [10::int, 20, 30] empty_tree of
      Some (Inr s) \<Rightarrow>
        rot_log s = [LeftRotate (Some 0)] \<and>
        key_of s (Some 0) = Inr 10 \<and>
        wf_tree s (Fork (Fork Tip 0 10 Tip) 1 20 (Fork Tip 2 30 Tip))
    | _ \<Rightarrow> False)"
  by code_simp

section \<open>Properties of traversals and searches\<close>

text \<open>
  C6. On every well-formed binary tree each of the seven traversals returns, and the
  variants of one order make the same sequence of callback calls: with any callback \<open>cb\<close>
  and any initial callback state \<open>c\<close>, the iterative pre-order traversal ends in the
  state of the recursive one, the iterative in-order traversal in the state of the
  recursive one, and both iterative post-order traversals in the state of the recursive
  one. (With \<open>cb = visit\<close> and \<open>c = []\<close> the state is the sequence of visited keys.)
\<close>

theorem traversal_variants_agree:
  "wf_tree s t \<longrightarrow>
     pre_order_traversal s cb c = Some (Inr (fold cb (preorder t) c)) \<and>
     pre_order_iter_traversal s cb c = pre_order_traversal s cb c \<and>
     in_order_traversal s cb c = Some (Inr (fold cb (inorder t) c)) \<and>
     in_order_iter_traversal s cb c = in_order_traversal s cb c \<and>
     post_order_traversal s cb c = Some (Inr (fold cb (postorder t) c)) \<and>
     post_order_iter_traversal_twostacks s cb c = post_order_traversal s cb c \<and>
     post_order_iter_traversal_onestack s cb c = post_order_traversal s cb c"
proof
  assume wf: "wf_tree s t"
  then have r: "rep (nodes s) None t" and d: "distinct (addrs t)" and m: "m_root s = root_ptr t"
    by (simp_all add: wf_tree_def)
  show "pre_order_traversal s cb c = Some (Inr (fold cb (preorder t) c)) \<and>
     pre_order_iter_traversal s cb c = pre_order_traversal s cb c \<and>
     in_order_traversal s cb c = Some (Inr (fold cb (inorder t) c)) \<and>
     in_order_iter_traversal s cb c = in_order_traversal s cb c \<and>
     post_order_traversal s cb c = Some (Inr (fold cb (postorder t) c)) \<and>
     post_order_iter_traversal_twostacks s cb c = post_order_traversal s cb c \<and>
     post_order_iter_traversal_onestack s cb c = post_order_traversal s cb c"
    unfolding pre_order_traversal_def pre_order_iter_traversal_def in_order_traversal_def
      in_order_iter_traversal_def post_order_traversal_def
      post_order_iter_traversal_twostacks_def post_order_iter_traversal_onestack_def m
    using pre_order_rep [OF r, of cb c] pre_order_iter_rep [OF r, of cb c]
      in_order_rep [OF r, of cb c] in_order_iter_rep [OF r, of cb c]
      post_order_rep [OF r, of cb c] post_order_iter_twostacks_rep [OF r, of cb c]
      post_order_iter_onestack_rep [OF r d, of cb c]
    by simp
qed

text \<open>The theorem at \<open>zig_right\<close>, with the callback that records the visited keys.\<close>

theorem traversal_variants_agree_witness:
  "wf_tree zig_right (Fork Tip 0 10 (Fork (Fork Tip 2 20 Tip) 1 30 Tip)) \<and>
   pre_order_traversal zig_right visit [] = Some (Inr [10, 30, 20]) \<and>
   pre_order_iter_traversal zig_right visit [] = Some (Inr [10, 30, 20]) \<and>
   in_order_traversal zig_right visit [] = Some (Inr [10, 20, 30]) \<and>
   in_order_iter_traversal zig_right visit [] = Some (Inr [10, 20, 30]) \<and>
   post_order_traversal zig_right visit [] = Some (Inr [20, 30, 10]) \<and>
   post_order_iter_traversal_twostacks zig_right visit [] = Some (Inr [20, 30, 10]) \<and>
   post_order_iter_traversal_onestack zig_right visit [] = Some (Inr [20, 30, 10])"
  using traversal_variants_agree [of zig_right "Fork Tip 0 10 (Fork (Fork Tip 2 20 Tip) 1 30 Tip)" visit "[]"]
    example_trees_wf(3)
  by (simp add: visit_def)

text \<open>
  C8. \<open>find(x)\<close> on a well-formed tree returns the in-order index of the first node with
  key \<open>x\<close> when the tree holds \<open>x\<close>, and \<open>-1\<close> when it does not; it changes neither a node
  nor the root (it writes the three scratch members only). \<open>find_count\<close> is a C++ \<open>int\<close>
  and is modelled by an unbounded integer; on a tree of fewer than \<open>2^31\<close> nodes the result
  is in the range of \<open>int\<close>, so there the counter of the code does not overflow.
\<close>

theorem find_returns_rank:
  "wf_tree s t \<longrightarrow>
     (\<exists>r s'. bst_find x s = Some (Inr (r, s')) \<and>
        nodes s' = nodes s \<and> m_root s' = m_root s \<and> wf_tree s' t \<and>
        (int (length (inorder t)) < 2 ^ 31 \<longrightarrow> - (2 ^ 31) \<le> r \<and> r < 2 ^ 31) \<and>
        (x \<notin> set (inorder t) \<longrightarrow> r = - 1) \<and>
        (x \<in> set (inorder t) \<longrightarrow>
           0 \<le> r \<and> nat r < length (inorder t) \<and> inorder t ! nat r = x \<and>
           (\<forall>j < nat r. inorder t ! j \<noteq> x)))"
proof
  assume a: "wf_tree s t"
  then have r: "rep (nodes s) None t" and m: "m_root s = root_ptr t"
    by (simp_all add: wf_tree_def)
  let ?s0 = "s\<lparr>find_target_key := Some x, find_count := - 1, is_found := False\<rparr>"
  let ?i = "length (takeWhile (\<lambda>k. k \<noteq> x) (inorder t))"
  have tr: "in_order_traversal s in_order_find ?s0 = Some (Inr (fold in_order_find (inorder t) ?s0))"
    unfolding in_order_traversal_def m using in_order_rep [OF r] .
  have f: "fold in_order_find (inorder t) ?s0 =
     (if x \<in> set (inorder t)
      then ?s0\<lparr>find_count := int ?i, is_found := True\<rparr>
      else ?s0\<lparr>find_count := - 1 + int (length (inorder t))\<rparr>)"
    using fold_find [of ?s0 x "inorder t"] by simp
  show "\<exists>r s'. bst_find x s = Some (Inr (r, s')) \<and>
        nodes s' = nodes s \<and> m_root s' = m_root s \<and> wf_tree s' t \<and>
        (int (length (inorder t)) < 2 ^ 31 \<longrightarrow> - (2 ^ 31) \<le> r \<and> r < 2 ^ 31) \<and>
        (x \<notin> set (inorder t) \<longrightarrow> r = - 1) \<and>
        (x \<in> set (inorder t) \<longrightarrow>
           0 \<le> r \<and> nat r < length (inorder t) \<and> inorder t ! nat r = x \<and>
           (\<forall>j < nat r. inorder t ! j \<noteq> x))"
  proof (cases "x \<in> set (inorder t)")
    case True
    then have lt: "?i < length (inorder t)" and at: "inorder t ! ?i = x"
      using first_index [of x "inorder t"] by simp_all
    have before: "\<forall>j < ?i. inorder t ! j \<noteq> x"
      using before_first_index [of _ x "inorder t"] by blast
    have "bst_find x s = Some (Inr (int ?i, ?s0\<lparr>find_count := int ?i, is_found := True\<rparr>))"
      using True by (simp add: bst_find_def tr f)
    moreover have "wf_tree (?s0\<lparr>find_count := int ?i, is_found := True\<rparr>) t"
      using a by (simp add: wf_tree_def)
    ultimately show ?thesis using True lt at before a by auto
  next
    case False
    have "bst_find x s = Some (Inr (- 1, ?s0\<lparr>find_count := - 1\<rparr>))"
      using False by (simp add: bst_find_def tr f)
    moreover have "wf_tree (?s0\<lparr>find_count := - 1\<rparr>) t"
      using a by (simp add: wf_tree_def)
    ultimately show ?thesis using False by auto
  qed
qed


text \<open>The theorem at \<open>zig_right\<close>: the key 20 has in-order index 1.\<close>

theorem find_returns_rank_witness:
  "wf_tree zig_right (Fork Tip 0 10 (Fork (Fork Tip 2 20 Tip) 1 30 Tip)) \<and>
   int (length (inorder (Fork Tip 0 (10::int) (Fork (Fork Tip 2 20 Tip) 1 30 Tip)))) < 2 ^ 31 \<and>
   (\<exists>s'. bst_find 20 zig_right = Some (Inr (1, s')) \<and> nodes s' = nodes zig_right \<and>
         m_root s' = m_root zig_right)"
proof -
  have "\<exists>r s'. bst_find 20 zig_right = Some (Inr (r, s')) \<and>
        nodes s' = nodes zig_right \<and> m_root s' = m_root zig_right \<and>
        (20 \<in> set (inorder (Fork Tip 0 (10::int) (Fork (Fork Tip 2 20 Tip) 1 30 Tip))) \<longrightarrow>
           0 \<le> r \<and> nat r < length (inorder (Fork Tip 0 (10::int) (Fork (Fork Tip 2 20 Tip) 1 30 Tip))) \<and>
           inorder (Fork Tip 0 (10::int) (Fork (Fork Tip 2 20 Tip) 1 30 Tip)) ! nat r = 20 \<and>
           (\<forall>j < nat r. inorder (Fork Tip 0 (10::int) (Fork (Fork Tip 2 20 Tip) 1 30 Tip)) ! j \<noteq> 20))"
    using find_returns_rank [of zig_right "Fork Tip 0 10 (Fork (Fork Tip 2 20 Tip) 1 30 Tip)" 20]
      example_trees_wf(3)
    by auto
  then obtain r s' where
    f: "bst_find 20 zig_right = Some (Inr (r, s'))" "nodes s' = nodes zig_right"
       "m_root s' = m_root zig_right"
    and r: "0 \<le> r" "nat r < 3" "[10, 20, 30 :: int] ! nat r = 20"
    by auto
  from r have "nat r = 1"
    by (cases "nat r = 0"; cases "nat r = 1"; cases "nat r = 2") auto
  with r(1) have "r = 1" by simp
  with f show ?thesis using example_trees_wf(3) by auto
qed

text \<open>
  C5, as amended. On an empty tree \<open>minimum\<close>, \<open>maximum\<close>, \<open>successor\<close> and \<open>predecessor\<close>
  throw \<open>EmptyTreeError\<close>, and so does \<open>remove\<close>, which leaves the object as it was. On a
  well-formed tree that is not empty and does not hold the key \<open>k\<close>, \<open>remove k\<close> throws
  \<open>ValueError\<close> (the specification's KeyNotFound) and leaves the object as it was, and
  \<open>successor k\<close> and \<open>predecessor k\<close> throw \<open>ValueError\<close>. (The four queries are \<open>const\<close>
  member functions and return no object.)
\<close>

theorem errors_on_empty_and_absent:
  "(m_root s = None \<longrightarrow>
      minimum s = Some (Inl EmptyTreeError) \<and> maximum s = Some (Inl EmptyTreeError) \<and>
      successor k s = Some (Inl EmptyTreeError) \<and> predecessor k s = Some (Inl EmptyTreeError) \<and>
      remove k s = Some (Thrown EmptyTreeError s)) \<and>
   (wf_tree s t \<and> t \<noteq> Tip \<and> k \<notin> set (inorder t) \<longrightarrow>
      remove k s = Some (Thrown ValueError s) \<and>
      successor k s = Some (Inl ValueError) \<and> predecessor k s = Some (Inl ValueError))"
proof (intro conjI impI)
  assume "m_root s = None"
  then show "minimum s = Some (Inl EmptyTreeError)" "maximum s = Some (Inl EmptyTreeError)"
    "successor k s = Some (Inl EmptyTreeError)" "predecessor k s = Some (Inl EmptyTreeError)"
    "remove k s = Some (Thrown EmptyTreeError s)"
    by (simp_all add: minimum_def maximum_def successor_def predecessor_def remove_def)
next
  assume a: "wf_tree s t \<and> t \<noteq> Tip \<and> k \<notin> set (inorder t)"
  then have r: "rep (nodes s) None t" and m: "m_root s = root_ptr t" and ne: "m_root s \<noteq> None"
    by (cases t; simp add: wf_tree_def)+
  from search_node_rep [OF r, of k] a have sn: "search_node s (m_root s) k = Some (Inr None)"
    unfolding m by auto
  show "remove k s = Some (Thrown ValueError s)"
    using ne sn by (simp add: remove_def)
  show "successor k s = Some (Inl ValueError)"
    using ne sn by (simp add: successor_def)
  show "predecessor k s = Some (Inl ValueError)"
    using ne sn by (simp add: predecessor_def)
qed

text \<open>The theorem at the empty tree and at \<open>one_node\<close>, with the absent key 42.\<close>

theorem errors_on_empty_and_absent_witness:
  "m_root (empty_tree :: int tree) = None \<and>
   minimum (empty_tree :: int tree) = Some (Inl EmptyTreeError) \<and>
   maximum (empty_tree :: int tree) = Some (Inl EmptyTreeError) \<and>
   successor 42 (empty_tree :: int tree) = Some (Inl EmptyTreeError) \<and>
   predecessor 42 (empty_tree :: int tree) = Some (Inl EmptyTreeError) \<and>
   remove 42 (empty_tree :: int tree) = Some (Thrown EmptyTreeError empty_tree) \<and>
   wf_tree one_node (Fork Tip 0 5 Tip) \<and> 42 \<notin> set (inorder (Fork Tip 0 (5::int) Tip)) \<and>
   remove 42 one_node = Some (Thrown ValueError one_node) \<and>
   successor 42 one_node = Some (Inl ValueError) \<and>
   predecessor 42 one_node = Some (Inl ValueError)"
  using errors_on_empty_and_absent [of "empty_tree :: int tree" 42 Tip]
    errors_on_empty_and_absent [of one_node 42 "Fork Tip 0 5 Tip"]
    example_trees_wf(1)
  by (simp add: empty_tree_def)

text \<open>
  C5 as the specification states it (\<open>remove\<close> of an absent key fails with KeyNotFound on
  any tree) fails at the empty tree, where \<open>remove\<close> throws \<open>EmptyTreeError\<close>.
\<close>

theorem remove_on_empty_counterexample:
  "wf_tree (empty_tree :: int tree) Tip \<and> (42::int) \<notin> set (inorder Tip) \<and>
   remove 42 (empty_tree :: int tree) = Some (Thrown EmptyTreeError empty_tree) \<and>
   remove 42 (empty_tree :: int tree) \<noteq> Some (Thrown ValueError empty_tree)"
  by (simp add: empty_tree_wf remove_def) (simp add: empty_tree_def)


section \<open>Properties of sequences of insertions\<close>

text \<open>
  C1, as amended. Every sequence of insertions into an empty \<open>BinarySearchTree\<close>, by
  \<open>iter_insert\<close> and \<open>insert\<close> in any mixture, returns and leaves a well-formed tree that
  satisfies the ordering invariant as the specification words it (\<open>bst_strict\<close>: left
  keys strictly smaller, right keys greater or equal); every sequence of \<open>AVLTree::insert\<close>
  into an empty tree returns and leaves a well-formed tree that satisfies the invariant
  with "smaller or equal" on the left (\<open>bst_weak\<close>). In both cases the in-order traversal
  visits the keys in non-decreasing order: it visits the inserted keys, sorted.
\<close>

theorem insertions_keep_order:
  "(\<exists>s t. bst_inserts ops empty_tree = Some (Inr s) \<and> wf_tree s t \<and> bst_strict t \<and>
          in_order_traversal s visit [] = Some (Inr (inorder t)) \<and>
          sorted (inorder t) \<and> inorder t = sort (map inserted_key ops)) \<and>
   (\<exists>s t. avl_inserts es empty_tree = Some (Inr s) \<and> wf_tree s t \<and> bst_weak t \<and>
          in_order_traversal s visit [] = Some (Inr (inorder t)) \<and>
          sorted (inorder t) \<and> inorder t = sort es)"
proof
  have e: "wf_tree (empty_tree :: 'a tree) Tip" by (rule empty_tree_wf)
  from bst_inserts_wf [OF e, of ops] obtain s t where
    st: "bst_inserts ops empty_tree = Some (Inr s)" "wf_tree s t" "bst_strict t"
        "mset (inorder t) = mset (map inserted_key ops)"
    by auto
  have so: "sorted (inorder t)" using bst_strict_weak [OF st(3)] by (simp add: bst_weak_sorted)
  have "inorder t = sort (map inserted_key ops)"
    using properties_for_sort [OF st(4) so] by simp
  then show "\<exists>s t. bst_inserts ops empty_tree = Some (Inr s) \<and> wf_tree s t \<and> bst_strict t \<and>
          in_order_traversal s visit [] = Some (Inr (inorder t)) \<and>
          sorted (inorder t) \<and> inorder t = sort (map inserted_key ops)"
    using st so in_order_visit [OF st(2)] by blast
next
  have e: "wf_tree (empty_tree :: 'b tree) Tip" by (rule empty_tree_wf)
  from avl_inserts_wf [OF e, of es] obtain s t where
    st: "avl_inserts es empty_tree = Some (Inr s)" "wf_tree s t" "bst_weak t"
        "mset (inorder t) = mset es"
    by auto
  have so: "sorted (inorder t)" using st(3) by (simp add: bst_weak_sorted)
  have "inorder t = sort es"
    using properties_for_sort [OF st(4) so] by simp
  then show "\<exists>s t. avl_inserts es empty_tree = Some (Inr s) \<and> wf_tree s t \<and> bst_weak t \<and>
          in_order_traversal s visit [] = Some (Inr (inorder t)) \<and>
          sorted (inorder t) \<and> inorder t = sort es"
    using st so in_order_visit [OF st(2)] by blast
qed

text \<open>The theorem at two sequences with a repeated key.\<close>

theorem insertions_keep_order_witness:
  "(case bst_inserts [IterInsert (20::int), RecInsert 10, IterInsert 30, RecInsert 20] empty_tree of
      Some (Inr s) \<Rightarrow>
        wf_tree s (Fork (Fork Tip 1 10 Tip) 0 20 (Fork (Fork Tip 3 20 Tip) 2 30 Tip)) \<and>
        in_order_traversal s visit [] = Some (Inr [10, 20, 20, 30])
    | _ \<Rightarrow> False) \<and>
   (\<exists>s t. bst_inserts [IterInsert (20::int), RecInsert 10, IterInsert 30, RecInsert 20] empty_tree
            = Some (Inr s) \<and> wf_tree s t \<and> bst_strict t \<and>
          in_order_traversal s visit [] = Some (Inr (inorder t)) \<and> sorted (inorder t) \<and>
          inorder t = sort (map inserted_key [IterInsert (20::int), RecInsert 10, IterInsert 30, RecInsert 20])) \<and>
   (\<exists>s t. avl_inserts [10::int, 10, 10] empty_tree = Some (Inr s) \<and> wf_tree s t \<and> bst_weak t \<and>
          in_order_traversal s visit [] = Some (Inr (inorder t)) \<and> sorted (inorder t) \<and>
          inorder t = sort [10::int, 10, 10])"
proof (intro conjI)
  show "case bst_inserts [IterInsert (20::int), RecInsert 10, IterInsert 30, RecInsert 20] empty_tree of
      Some (Inr s) \<Rightarrow>
        wf_tree s (Fork (Fork Tip 1 10 Tip) 0 20 (Fork (Fork Tip 3 20 Tip) 2 30 Tip)) \<and>
        in_order_traversal s visit [] = Some (Inr [10, 20, 20, 30])
    | _ \<Rightarrow> False"
    by code_simp
qed (rule insertions_keep_order [THEN conjunct1], rule insertions_keep_order [THEN conjunct2])

text \<open>
  C1 as the specification states it (every tree reachable by insertions, those of the
  AVL tree included, has only strictly smaller keys in left subtrees) fails for the AVL
  insertions of 10, 10, 10: the left rotation at the first node makes the second node
  the root, with the first node, of the same key, as its left child. (By
  \<open>wf_tree_unique\<close> an object has one shape only.)
\<close>

theorem avl_duplicates_counterexample:
  "(case avl_inserts [10::int, 10, 10] empty_tree of
      Some (Inr s) \<Rightarrow> wf_tree s (Fork (Fork Tip 0 10 Tip) 1 10 (Fork Tip 2 10 Tip))
    | _ \<Rightarrow> False) \<and>
   \<not> bst_strict (Fork (Fork Tip 0 (10::int) Tip) 1 10 (Fork Tip 2 10 Tip))"
  by code_simp

text \<open>
  C2. Every sequence of \<open>AVLTree::insert\<close> into an empty tree returns and leaves a
  well-formed tree of one node per insertion that satisfies the balance invariant: at
  every node the heights that \<open>height\<close> computes for the left and the right subtree (\<open>-1\<close>
  for an absent one) differ by at most 1. (The heights are C++ \<open>int\<close>s, modelled by
  unbounded integers; the height of a balanced tree is logarithmic in its size, so it
  stays far inside the range of \<open>int\<close>.)
\<close>

theorem avl_inserts_balanced:
  "\<exists>s t. avl_inserts es empty_tree = Some (Inr s) \<and> wf_tree s t \<and> avl t \<and>
         length (inorder t) = length es \<and>
         (\<forall>a\<in>set (addrs t). \<exists>n. nodes s a = Some n \<and>
            (\<exists>hl hr. height_node s (m_left n) = Some (Inr hl) \<and>
                     height_node s (m_right n) = Some (Inr hr) \<and> \<bar>hl - hr\<bar> \<le> 1))"
proof -
  have "wf_tree (empty_tree :: 'a tree) Tip" "avl (Tip :: 'a shape)" "bst_weak (Tip :: 'a shape)"
    by (simp_all add: empty_tree_wf)
  from avl_inserts_wf [OF this, of es] obtain s t where
    st: "avl_inserts es empty_tree = Some (Inr s)" "wf_tree s t" "avl t"
        "mset (inorder t) = mset es"
    by auto
  have "length (inorder t) = length es" using st(4) by (rule mset_eq_length)
  with avl_node_heights [OF st(2,3)] st show ?thesis by blast
qed

text \<open>The theorem at the insertions of 10, 20, 30, 40, 50, which rotate twice.\<close>

theorem avl_inserts_balanced_witness:
  "(case avl_inserts [10::int, 20, 30, 40, 50] empty_tree of
      Some (Inr s) \<Rightarrow>
        wf_tree s (Fork (Fork Tip 0 10 Tip) 1 20 (Fork (Fork Tip 2 30 Tip) 3 40 (Fork Tip 4 50 Tip))) \<and>
        rot_log s = [LeftRotate (Some 0), LeftRotate (Some 2)]
    | _ \<Rightarrow> False) \<and>
   (\<exists>s t. avl_inserts [10::int, 20, 30, 40, 50] empty_tree = Some (Inr s) \<and> wf_tree s t \<and> avl t \<and>
         length (inorder t) = length [10::int, 20, 30, 40, 50] \<and>
         (\<forall>a\<in>set (addrs t). \<exists>n. nodes s a = Some n \<and>
            (\<exists>hl hr. height_node s (m_left n) = Some (Inr hl) \<and>
                     height_node s (m_right n) = Some (Inr hr) \<and> \<bar>hl - hr\<bar> \<le> 1)))"
proof (intro conjI)
  show "case avl_inserts [10::int, 20, 30, 40, 50] empty_tree of
      Some (Inr s) \<Rightarrow>
        wf_tree s (Fork (Fork Tip 0 10 Tip) 1 20 (Fork (Fork Tip 2 30 Tip) 3 40 (Fork Tip 4 50 Tip))) \<and>
        rot_log s = [LeftRotate (Some 0), LeftRotate (Some 2)]
    | _ \<Rightarrow> False"
    by code_simp
qed (rule avl_inserts_balanced)

section \<open>Further properties\<close>

text \<open>
  The layout \<open>[5, 3, 8, absent, 4, absent, 9]\<close> is well-formed: the constructor builds the
  tree with root 5, and the in-order traversal of that tree visits 3, 4, 5, 8, 9.
\<close>

theorem bfs_layout_example:
  "(case from_bfs [Some (5::int), Some 3, Some 8, None, Some 4, None, Some 9] of
      Inr s \<Rightarrow>
        wf_tree s (Fork (Fork Tip 1 3 (Fork Tip 3 4 Tip)) 0 5 (Fork Tip 2 8 (Fork Tip 4 9 Tip))) \<and>
        in_order_traversal s visit [] = Some (Inr [3, 4, 5, 8, 9])
    | Inl e \<Rightarrow> False)"
  by code_simp

text \<open>
  On a well-formed tree that satisfies the ordering invariant (in its weak form, which
  every tree built by insertions has), \<open>search x\<close> returns, and returns true exactly when
  the tree holds the key \<open>x\<close>.
\<close>

theorem search_finds_present_keys:
  "wf_tree s t \<and> bst_weak t \<longrightarrow> search x s = Some (Inr (x \<in> set (inorder t)))"
proof
  assume a: "wf_tree s t \<and> bst_weak t"
  then have r: "rep (nodes s) None t" and m: "m_root s = root_ptr t"
    by (simp_all add: wf_tree_def)
  from search_node_weak [OF r, of x] a show "search x s = Some (Inr (x \<in> set (inorder t)))"
    by (auto simp: search_def m)
qed

text \<open>The theorem at \<open>zig_right\<close>, with a key it holds and a key it does not hold.\<close>

theorem search_finds_present_keys_witness:
  "wf_tree zig_right (Fork Tip 0 10 (Fork (Fork Tip 2 20 Tip) 1 30 Tip)) \<and>
   bst_weak (Fork Tip 0 (10::int) (Fork (Fork Tip 2 20 Tip) 1 30 Tip)) \<and>
   search 20 zig_right = Some (Inr True) \<and> search 25 zig_right = Some (Inr False)"
  using search_finds_present_keys [of zig_right "Fork Tip 0 10 (Fork (Fork Tip 2 20 Tip) 1 30 Tip)" 20]
    search_finds_present_keys [of zig_right "Fork Tip 0 10 (Fork (Fork Tip 2 20 Tip) 1 30 Tip)" 25]
    example_trees_wf(3)
  by simp


end
